theory Spec2Isabelle
  imports Complex_Main
begin

section \<open>Data model (src/types.ts)\<close>

text \<open>
  \<^verbatim>\<open>PieceColor = 'w' | 'b'\<close> and \<^verbatim>\<open>PieceType = 'p' | 'n' | 'b' | 'r' | 'q' | 'k'\<close>.
\<close>

datatype PieceColor = White | Black

datatype PieceType = Pawn | Knight | Bishop | Rook | Queen | King

record Square =
  square :: string
  ptype :: PieceType
  color :: PieceColor

text \<open>
  The rules engine (chess.js) is an external library: the search only calls it. It is a
  parameter of every function of the engine, as a record of the operations the search uses
  on a game state of type \<open>'g\<close>. \<open>newChess\<close> is the constructor \<^verbatim>\<open>new Chess(fen)\<close>,
  which rejects a string that is no position (\<open>None\<close>); \<open>applyMove\<close> is the method
  \<^verbatim>\<open>move\<close> (renamed: the node has a field \<^verbatim>\<open>move\<close>) on a move that is legal.
\<close>

record 'g ChessInstance =
  newChess :: "string \<Rightarrow> 'g option"
  fen :: "'g \<Rightarrow> string"
  board :: "'g \<Rightarrow> Square option list list"
  applyMove :: "'g \<Rightarrow> string \<Rightarrow> 'g"
  turn :: "'g \<Rightarrow> PieceColor"
  moves :: "'g \<Rightarrow> string list"
  isGameOver :: "'g \<Rightarrow> bool"
  isCheckmate :: "'g \<Rightarrow> bool"
  isDraw :: "'g \<Rightarrow> bool"
  isStalemate :: "'g \<Rightarrow> bool"
  isThreefoldRepetition :: "'g \<Rightarrow> bool"

text \<open>
  What can stop a call of the entry point without a result: an exception of the rules engine
  (a string that is no position, a move that is not legal in the position it is applied to),
  a \<^verbatim>\<open>TypeError\<close> of the language (\<^verbatim>\<open>reduce\<close> of an empty array, a property of
  \<^verbatim>\<open>undefined\<close>), and the end of the clock readings the model was given
  (\<open>ClockExhausted\<close>: the loop was still running at the last reading of \<^verbatim>\<open>Date.now()\<close>).
\<close>

datatype error = InvalidFen | InvalidMove | TypeError | ClockExhausted

text \<open>
  \<^verbatim>\<open>game.move(m)\<close>: the rules engine throws on a move that is not legal in the position;
  \<open>None\<close> is the value \<^verbatim>\<open>undefined\<close> (an array read out of range) or \<^verbatim>\<open>null\<close>.
\<close>

definition make_move :: "'g ChessInstance \<Rightarrow> 'g \<Rightarrow> string option \<Rightarrow> error + 'g" where
  "make_move R game m =
     (case m of
        None \<Rightarrow> Inl InvalidMove
      | Some s \<Rightarrow> if s \<in> set (moves R game) then Inr (applyMove R game s) else Inl InvalidMove)"

text \<open>\<^verbatim>\<open>xs[Math.floor(r * xs.length)]\<close>, with \<open>r\<close> the value of \<^verbatim>\<open>Math.random()\<close>.\<close>

definition random_pick :: "real \<Rightarrow> 'a list \<Rightarrow> 'a option" where
  "random_pick r xs =
     (let i = \<lfloor>r * real (length xs)\<rfloor>
      in if 0 \<le> i \<and> i < int (length xs) then Some (xs ! nat i) else None)"

subsection \<open>Configuration\<close>

definition TIME_LIMIT_MS :: int where
  "TIME_LIMIT_MS = 1000"

definition EXPLORATION_CONSTANT :: real where
  "EXPLORATION_CONSTANT = 1.414"

definition MAX_SIMULATION_DEPTH :: nat where
  "MAX_SIMULATION_DEPTH = 50"

definition MAX_VALUE :: real where
  "MAX_VALUE = 17976931348623157 * 10 ^ 292"

subsection \<open>The node class\<close>

text \<open>
  A node owns its children; its \<^verbatim>\<open>parent\<close> field is set once, by the constructor, to the
  node whose \<^verbatim>\<open>addChild\<close> creates it, and never assigned again. So the tree is a value, a
  node is addressed by the path of child indices from the root, and its parent is the node
  at the path without its last index (\<open>parent_of\<close>); the root has no parent.
\<close>

datatype MCTSNode =
  MCTSNode (children: "MCTSNode list") (visits: nat) (wins: real) (move: "string option")
    (untriedMoves: "string list") (playerJustMoved: PieceColor)

type_synonym address = "nat list"

definition parent_of :: "address \<Rightarrow> address option" where
  "parent_of p = (if p = [] then None else Some (butlast p))"

fun node_at :: "MCTSNode \<Rightarrow> address \<Rightarrow> MCTSNode" where
  "node_at n [] = n"
| "node_at n (i # p) = node_at (children n ! i) p"

fun modify_at :: "(MCTSNode \<Rightarrow> MCTSNode) \<Rightarrow> address \<Rightarrow> MCTSNode \<Rightarrow> MCTSNode" where
  "modify_at f [] n = f n"
| "modify_at f (i # p) n =
     MCTSNode ((children n)[i := modify_at f p (children n ! i)]) (visits n) (wins n) (move n)
       (untriedMoves n) (playerJustMoved n)"

text \<open>The constructor; both branches on \<^verbatim>\<open>parent === null\<close> are the same in the source.\<close>

definition new_MCTSNode :: "'g ChessInstance \<Rightarrow> 'g \<Rightarrow> address option \<Rightarrow> string option \<Rightarrow> MCTSNode" where
  "new_MCTSNode R game parent mv =
     MCTSNode [] 0 0 mv (moves R game)
       (if parent = None then (if turn R game = White then Black else White)
        else (if turn R game = White then Black else White))"

definition isFullyExpanded :: "MCTSNode \<Rightarrow> bool" where
  "isFullyExpanded n = (length (untriedMoves n) = 0)"

definition isTerminal :: "'g ChessInstance \<Rightarrow> 'g \<Rightarrow> bool" where
  "isTerminal R game = isGameOver R game"

text \<open>
  \<^verbatim>\<open>uctValue\<close> reads \<^verbatim>\<open>this.parent.visits\<close>: the first argument. The numbers of
  the source are IEEE doubles; here \<open>visits\<close> is a natural number and \<open>wins\<close>, a sum
  of values 0, 0.5 and 1, a real number, both exact in a double below \<open>2 ^ 53\<close>. The
  priority is a real number, without the rounding of \<^verbatim>\<open>Math.log\<close>, \<^verbatim>\<open>Math.sqrt\<close>
  and the division: what is proved of \<open>selectChild\<close> below holds for every priority
  function, and what is evaluated compares priorities of nodes with equal fields or goes
  through no selection among several children.
\<close>

definition uctValue :: "nat \<Rightarrow> MCTSNode \<Rightarrow> real" where
  "uctValue parent_visits n =
     (if visits n = 0 then MAX_VALUE
      else wins n / real (visits n)
           + EXPLORATION_CONSTANT * sqrt (ln (real parent_visits) / real (visits n)))"

text \<open>\<^verbatim>\<open>Array.prototype.reduce\<close> without an initial value: a \<^verbatim>\<open>TypeError\<close> on \<open>[]\<close>.\<close>

fun reduce :: "('a \<Rightarrow> 'a \<Rightarrow> 'a) \<Rightarrow> 'a list \<Rightarrow> 'a option" where
  "reduce f [] = None"
| "reduce f (x # xs) = Some (foldl f x xs)"

text \<open>
  \<^verbatim>\<open>selectChild\<close> returns a reference to one of the children: here its index. The
  reduction runs over the children in the order of the array.
\<close>

definition selectChild :: "MCTSNode \<Rightarrow> nat option" where
  "selectChild n =
     reduce (\<lambda>prev current.
        if uctValue (visits n) (children n ! prev) > uctValue (visits n) (children n ! current)
        then prev else current)
      [0 ..< length (children n)]"

text \<open>
  \<^verbatim>\<open>addChild\<close>: the node after the call, and the new child, which is the last of its
  children.
\<close>

definition addChild ::
  "'g ChessInstance \<Rightarrow> address \<Rightarrow> MCTSNode \<Rightarrow> string option \<Rightarrow> 'g \<Rightarrow> error + MCTSNode" where
  "addChild R this_addr this mv game =
     (case newChess R (fen R game) of
        None \<Rightarrow> Inl InvalidFen
      | Some newGame \<Rightarrow>
          (case make_move R newGame mv of
             Inl e \<Rightarrow> Inl e
           | Inr newGame' \<Rightarrow>
               let child = new_MCTSNode R newGame' (Some this_addr) mv
               in Inr (MCTSNode (children this @ [child]) (visits this) (wins this) (move this)
                        (filter (\<lambda>m. Some m \<noteq> mv) (untriedMoves this)) (playerJustMoved this))))"

definition update :: "real \<Rightarrow> MCTSNode \<Rightarrow> MCTSNode" where
  "update result n =
     MCTSNode (children n) (visits n + 1) (wins n + result) (move n) (untriedMoves n)
       (playerJustMoved n)"


subsection \<open>Outcome of a simulation\<close>

definition getSimulationResult :: "'g ChessInstance \<Rightarrow> 'g \<Rightarrow> PieceColor \<Rightarrow> real" where
  "getSimulationResult R game pjm =
     (if isCheckmate R game then
        (let winner = (if turn R game = White then Black else White)
         in if winner = pjm then 1 else 0)
      else if isDraw R game \<or> isThreefoldRepetition R game \<or> isStalemate R game then 0.5
      else 0.5)"

text \<open>The table \<^verbatim>\<open>values\<close> and the material heuristic of an incomplete simulation.\<close>

fun piece_values :: "PieceType \<Rightarrow> real" where
  "piece_values Pawn = 1"
| "piece_values Knight = 3"
| "piece_values Bishop = 3"
| "piece_values Rook = 5"
| "piece_values Queen = 9"
| "piece_values King = 0"

definition material_score :: "Square option list list \<Rightarrow> PieceColor \<Rightarrow> real" where
  "material_score b pjm =
     foldl (\<lambda>score row.
        foldl (\<lambda>score p.
           case p of
             None \<Rightarrow> score
           | Some sq \<Rightarrow>
               (let val = piece_values (ptype sq)
                in score + (if color sq = pjm then val else - val)))
          score row)
       0 b"

definition material_result :: "'g ChessInstance \<Rightarrow> 'g \<Rightarrow> PieceColor \<Rightarrow> real" where
  "material_result R game pjm =
     (let score = material_score (board R game) pjm;
          result = 0.5 + score / 100;
          result = (if result > 1 then 1 else result);
          result = (if result < 0 then 0 else result)
      in result)"

text \<open>The variable \<^verbatim>\<open>result\<close> of the entry point, as it is when the simulation has ended.\<close>

definition simulation_result :: "'g ChessInstance \<Rightarrow> 'g \<Rightarrow> MCTSNode \<Rightarrow> real" where
  "simulation_result R gameClone node =
     (if isGameOver R gameClone then getSimulationResult R gameClone (playerJustMoved node)
      else material_result R gameClone (playerJustMoved node))"

section \<open>The search (getBestMoveMCTS)\<close>

text \<open>
  1. Selection: from a node, down to a node that has an untried move or no child. The
  result is the address of that node relative to the node the loop started at, and the
  game after the moves on the way.
\<close>

function select_loop ::
  "'g ChessInstance \<Rightarrow> MCTSNode \<Rightarrow> 'g \<Rightarrow> error + (address \<times> 'g)" where
  "select_loop R node gameClone =
     (if length (untriedMoves node) = 0 \<and> length (children node) > 0 then
        (case selectChild node of
           None \<Rightarrow> Inl TypeError
         | Some i \<Rightarrow>
             (case make_move R gameClone (move (children node ! i)) of
                Inl e \<Rightarrow> Inl e
              | Inr gameClone' \<Rightarrow>
                  (case select_loop R (children node ! i) gameClone' of
                     Inl e \<Rightarrow> Inl e
                   | Inr (p, g) \<Rightarrow> Inr (i # p, g))))
      else Inr ([], gameClone))"
  by pat_completeness auto
termination
proof (relation "measure (\<lambda>(R, node, gameClone). size node)", goal_cases)
  case 1
  show ?case by simp
next
  case (2 R node gameClone i g')
  have pick: "foldl f x xs \<in> set (x # xs)"
    if "\<And>a b. f a b = a \<or> f a b = b" for f :: "nat \<Rightarrow> nat \<Rightarrow> nat" and x xs
    using that
  proof (induction xs arbitrary: x)
    case Nil
    show ?case by simp
  next
    case (Cons y ys)
    have "foldl f (f x y) ys \<in> set (f x y # ys)"
      using Cons.IH [of "f x y"] Cons.prems by blast
    moreover have "f x y = x \<or> f x y = y"
      using Cons.prems by blast
    ultimately show ?case by auto
  qed
  from 2 have "i \<in> set [0 ..< length (children node)]"
    unfolding selectChild_def
    by (cases "[0 ..< length (children node)]") (auto intro!: pick [simplified])
  then have "children node ! i \<in> set (children node)"
    by simp
  then have "size (children node ! i) < Suc (size_list size (children node))"
    by (simp add: less_Suc_eq_le size_list_estimation')
  then show ?case
    by (cases node) simp
qed

text \<open>
  3. Simulation: random moves until the game is over or the depth limit is reached.
  \<open>rnd\<close> is the sequence of values that \<^verbatim>\<open>Math.random()\<close> returns during the call, and
  \<open>k\<close> the number of values read so far.
\<close>

function rollout ::
  "'g ChessInstance \<Rightarrow> (nat \<Rightarrow> real) \<Rightarrow> nat \<Rightarrow> 'g \<Rightarrow> nat \<Rightarrow> error + ('g \<times> nat)" where
  "rollout R rnd k gameClone depth =
     (if \<not> isGameOver R gameClone \<and> depth < MAX_SIMULATION_DEPTH then
        (let randomMove = random_pick (rnd k) (moves R gameClone)
         in case make_move R gameClone randomMove of
              Inl e \<Rightarrow> Inl e
            | Inr gameClone' \<Rightarrow> rollout R rnd (k + 1) gameClone' (depth + 1))
      else Inr (gameClone, k))"
  by pat_completeness auto
termination
  by (relation "measure (\<lambda>(R, rnd, k, gameClone, depth). MAX_SIMULATION_DEPTH - depth)") auto

text \<open>
  4. Backpropagation. The value added to a node is computed again for every node of the
  path, from the game at the end of the simulation; \<open>None\<close> is the winner \<^verbatim>\<open>'draw'\<close>.
  \<open>tree\<close> is the tree under the root, \<open>node\<close> the address of the variable \<^verbatim>\<open>node\<close>
  (\<open>None\<close> when it is \<^verbatim>\<open>null\<close>).
\<close>

definition backprop_val :: "'g ChessInstance \<Rightarrow> 'g \<Rightarrow> MCTSNode \<Rightarrow> real" where
  "backprop_val R gameClone node =
     (let winner = (if isCheckmate R gameClone
                    then Some (if turn R gameClone = White then Black else White)
                    else None)
      in if winner = Some (playerJustMoved node) then 1
         else if winner \<noteq> None then 0
         else 0.5)"

function backpropagate ::
  "'g ChessInstance \<Rightarrow> 'g \<Rightarrow> MCTSNode \<Rightarrow> address option \<Rightarrow> MCTSNode" where
  "backpropagate R gameClone tree node =
     (case node of
        None \<Rightarrow> tree
      | Some p \<Rightarrow>
          backpropagate R gameClone
            (modify_at (\<lambda>n. update (backprop_val R gameClone n) n) p tree) (parent_of p))"
  by pat_completeness auto
termination
  by (relation "measure (\<lambda>(R, gameClone, tree, node). case node of None \<Rightarrow> 0 | Some p \<Rightarrow> Suc (length p))")
    (auto simp: parent_of_def split: if_splits)


text \<open>
  2. Expansion, at the node where the selection stopped: the tree, the address of the
  variable \<^verbatim>\<open>node\<close> (the new child, pushed at the end of the children), the game and
  the number of random values read, after the step.
\<close>

definition expand ::
  "'g ChessInstance \<Rightarrow> (nat \<Rightarrow> real) \<Rightarrow> nat \<Rightarrow> MCTSNode \<Rightarrow> address \<Rightarrow> 'g
     \<Rightarrow> error + (MCTSNode \<times> address \<times> 'g \<times> nat)" where
  "expand R rnd k tree node gameClone =
     (if length (untriedMoves (node_at tree node)) > 0 \<and> \<not> isGameOver R gameClone then
        (let mv = random_pick (rnd k) (untriedMoves (node_at tree node))
         in case addChild R node (node_at tree node) mv gameClone of
              Inl e \<Rightarrow> Inl e
            | Inr this' \<Rightarrow>
                (case make_move R gameClone mv of
                   Inl e \<Rightarrow> Inl e
                 | Inr gameClone' \<Rightarrow>
                     Inr (modify_at (\<lambda>_. this') node tree,
                          node @ [length (children (node_at tree node))], gameClone', k + 1)))
      else Inr (tree, node, gameClone, k))"

text \<open>
  The body of the loop of the entry point: one cycle of selection, expansion, simulation
  and backpropagation. \<^verbatim>\<open>result\<close> is computed as the source computes it; the
  backpropagation does not read it.
\<close>

definition mcts_cycle ::
  "'g ChessInstance \<Rightarrow> (nat \<Rightarrow> real) \<Rightarrow> string \<Rightarrow> nat \<Rightarrow> MCTSNode \<Rightarrow> error + (MCTSNode \<times> nat)" where
  "mcts_cycle R rnd fen_str k tree =
     (case newChess R fen_str of
        None \<Rightarrow> Inl InvalidFen
      | Some gameClone0 \<Rightarrow>
          (case select_loop R tree gameClone0 of
             Inl e \<Rightarrow> Inl e
           | Inr (node, gameClone1) \<Rightarrow>
               (case expand R rnd k tree node gameClone1 of
                  Inl e \<Rightarrow> Inl e
                | Inr (tree1, node1, gameClone2, k1) \<Rightarrow>
                    (case rollout R rnd k1 gameClone2 0 of
                       Inl e \<Rightarrow> Inl e
                     | Inr (gameClone3, k2) \<Rightarrow>
                         (let result = simulation_result R gameClone3 (node_at tree1 node1)
                          in Inr (backpropagate R gameClone3 tree1 (Some node1), k2))))))"

text \<open>
  The loop of the entry point. \<open>clock\<close> holds the values that \<^verbatim>\<open>Date.now()\<close> returns
  at the successive tests of the loop condition, in order.
\<close>

fun mcts_loop ::
  "'g ChessInstance \<Rightarrow> (nat \<Rightarrow> real) \<Rightarrow> string \<Rightarrow> int \<Rightarrow> int list \<Rightarrow> nat \<Rightarrow> MCTSNode
     \<Rightarrow> error + MCTSNode" where
  "mcts_loop R rnd fen_str startTime [] k tree = Inl ClockExhausted"
| "mcts_loop R rnd fen_str startTime (now # clock) k tree =
     (if now - startTime < TIME_LIMIT_MS then
        (case mcts_cycle R rnd fen_str k tree of
           Inl e \<Rightarrow> Inl e
         | Inr (tree', k') \<Rightarrow> mcts_loop R rnd fen_str startTime clock k' tree')
      else Inr tree)"

text \<open>
  \<^verbatim>\<open>Array.prototype.sort\<close> with a comparison function. The sort is stable (ECMAScript
  2019): elements that compare equal keep their order, so with a consistent comparison
  function the result is the one of an insertion sort that puts an element in front of the
  first element it does not compare greater than.
\<close>

fun insert_cmp :: "('a \<Rightarrow> 'a \<Rightarrow> int) \<Rightarrow> 'a \<Rightarrow> 'a list \<Rightarrow> 'a list" where
  "insert_cmp cmp x [] = [x]"
| "insert_cmp cmp x (y # ys) = (if cmp x y \<le> 0 then x # y # ys else y # insert_cmp cmp x ys)"

definition js_sort :: "('a \<Rightarrow> 'a \<Rightarrow> int) \<Rightarrow> 'a list \<Rightarrow> 'a list" where
  "js_sort cmp xs = foldr (insert_cmp cmp) xs []"

text \<open>The last two lines of the entry point: the child of the root with the most visits.\<close>

definition robust_child :: "MCTSNode \<Rightarrow> string option" where
  "robust_child tree =
     (let sortedChildren = js_sort (\<lambda>a b. int (visits b) - int (visits a)) (children tree)
      in if length sortedChildren > 0 then move (sortedChildren ! 0) else None)"

text \<open>
  The tree at the exit of the loop. The first value of \<open>clock\<close> is \<^verbatim>\<open>startTime\<close>, the
  others are read by the loop.
\<close>

definition search_tree ::
  "'g ChessInstance \<Rightarrow> int list \<Rightarrow> (nat \<Rightarrow> real) \<Rightarrow> string \<Rightarrow> 'g \<Rightarrow> error + MCTSNode" where
  "search_tree R clock rnd fen_str rootGame =
     (let tree = new_MCTSNode R rootGame None None
      in case clock of
           [] \<Rightarrow> Inl ClockExhausted
         | startTime # clock' \<Rightarrow> mcts_loop R rnd fen_str startTime clock' 0 tree)"

text \<open>The entry point; \<open>Inr None\<close> is the result \<^verbatim>\<open>null\<close>.\<close>

definition getBestMoveMCTS ::
  "'g ChessInstance \<Rightarrow> int list \<Rightarrow> (nat \<Rightarrow> real) \<Rightarrow> string \<Rightarrow> error + string option" where
  "getBestMoveMCTS R clock rnd fen_str =
     (case newChess R fen_str of
        None \<Rightarrow> Inl InvalidFen
      | Some rootGame \<Rightarrow>
          if isGameOver R rootGame then Inr None
          else
            (case search_tree R clock rnd fen_str rootGame of
               Inl e \<Rightarrow> Inl e
             | Inr tree \<Rightarrow> Inr (robust_child tree)))"

section \<open>Counting cycles, and the entry point of the specification\<close>

text \<open>\<open>n\<close> executions of the body of the loop, one after the other.\<close>

fun run_cycles ::
  "'g ChessInstance \<Rightarrow> (nat \<Rightarrow> real) \<Rightarrow> string \<Rightarrow> nat \<Rightarrow> nat \<Rightarrow> MCTSNode
     \<Rightarrow> error + (MCTSNode \<times> nat)" where
  "run_cycles R rnd fen_str 0 k tree = Inr (tree, k)"
| "run_cycles R rnd fen_str (Suc n) k tree =
     (case mcts_cycle R rnd fen_str k tree of
        Inl e \<Rightarrow> Inl e
      | Inr (tree', k') \<Rightarrow> run_cycles R rnd fen_str n k' tree')"

text \<open>
  The entry point as the specification words it (sections 4.7 and 6), not as the source has
  it: \<^verbatim>\<open>selectMove(position, budgetMs)\<close> takes an optional time budget, 1000 ms when it
  is absent, and repeats the cycle until the time elapsed since the start meets or exceeds
  the budget. The cycle and the choice of the move returned are the ones of the source.
\<close>

fun spec_loop ::
  "'g ChessInstance \<Rightarrow> (nat \<Rightarrow> real) \<Rightarrow> string \<Rightarrow> int \<Rightarrow> int \<Rightarrow> int list \<Rightarrow> nat \<Rightarrow> MCTSNode
     \<Rightarrow> error + MCTSNode" where
  "spec_loop R rnd fen_str budget startTime [] k tree = Inl ClockExhausted"
| "spec_loop R rnd fen_str budget startTime (now # clock) k tree =
     (if now - startTime \<ge> budget then Inr tree
      else
        (case mcts_cycle R rnd fen_str k tree of
           Inl e \<Rightarrow> Inl e
         | Inr (tree', k') \<Rightarrow> spec_loop R rnd fen_str budget startTime clock k' tree'))"

definition selectMove ::
  "'g ChessInstance \<Rightarrow> int option \<Rightarrow> int list \<Rightarrow> (nat \<Rightarrow> real) \<Rightarrow> string
     \<Rightarrow> error + string option" where
  "selectMove R budgetMs clock rnd position =
     (let budget = (case budgetMs of None \<Rightarrow> 1000 | Some b \<Rightarrow> b)
      in case newChess R position of
           None \<Rightarrow> Inl InvalidFen
         | Some rootGame \<Rightarrow>
             if isGameOver R rootGame then Inr None
             else
               (case clock of
                  [] \<Rightarrow> Inl ClockExhausted
                | startTime # clock' \<Rightarrow>
                    (case spec_loop R rnd position budget startTime clock' 0
                            (new_MCTSNode R rootGame None None) of
                       Inl e \<Rightarrow> Inl e
                     | Inr tree \<Rightarrow> Inr (robust_child tree))))"

section \<open>Properties of a tree, and what the search assumes of its collaborators\<close>

text \<open>The addresses of the nodes of a tree.\<close>

fun is_node :: "MCTSNode \<Rightarrow> address \<Rightarrow> bool" where
  "is_node n [] = True"
| "is_node n (i # p) = (i < length (children n) \<and> is_node (children n ! i) p)"

text \<open>
  The function \<open>f\<close> applied to every node on the path from the root to an address: what
  the backpropagation has done when its loop ends (lemma \<open>backpropagate_update_path\<close>).
\<close>

fun update_path :: "(MCTSNode \<Rightarrow> MCTSNode) \<Rightarrow> address \<Rightarrow> MCTSNode \<Rightarrow> MCTSNode" where
  "update_path f [] n = f n"
| "update_path f (i # p) n =
     f (MCTSNode ((children n)[i := update_path f p (children n ! i)]) (visits n) (wins n)
          (move n) (untriedMoves n) (playerJustMoved n))"

text \<open>No node has more visits than its parent.\<close>

fun visits_ok :: "MCTSNode \<Rightarrow> bool" where
  "visits_ok (MCTSNode cs v w m u pjm) = (\<forall>c \<in> set cs. visits c \<le> v \<and> visits_ok c)"

text \<open>
  The moves of a node: its untried moves and the moves that label its children. In every
  node of the tree they are, as a set, the legal moves of the game the node was constructed
  from. \<open>created\<close> is that game for the node at hand, and \<open>current\<close> the game the
  search holds when it stands at the node (\<^verbatim>\<open>gameClone\<close>): \<^verbatim>\<open>addChild\<close> constructs
  a child from a new game, built from the FEN string of \<^verbatim>\<open>gameClone\<close>, after the move.
\<close>

fun legal_ok :: "'g ChessInstance \<Rightarrow> 'g \<Rightarrow> 'g \<Rightarrow> MCTSNode \<Rightarrow> bool" where
  "legal_ok R created current (MCTSNode cs v w m u pjm) =
     (Some ` set u \<union> move ` set cs = Some ` set (moves R created)
      \<and> (\<forall>c \<in> set cs.
            case move c of
              None \<Rightarrow> False
            | Some mv \<Rightarrow>
                (case newChess R (fen R current) of
                   None \<Rightarrow> False
                 | Some newGame \<Rightarrow>
                     legal_ok R (applyMove R newGame mv) (applyMove R current mv) c)))"

text \<open>No move occurs twice among the moves of a node, in every node of the tree.\<close>

fun no_dup :: "MCTSNode \<Rightarrow> bool" where
  "no_dup (MCTSNode cs v w m u pjm) =
     (distinct (map Some u @ map move cs) \<and> (\<forall>c \<in> set cs. no_dup c))"

text \<open>
  Every move of a node is legal in the game the search holds when it stands at the node, in
  every node of the tree.
\<close>

fun applicable :: "'g ChessInstance \<Rightarrow> 'g \<Rightarrow> MCTSNode \<Rightarrow> bool" where
  "applicable R current (MCTSNode cs v w m u pjm) =
     (set u \<subseteq> set (moves R current)
      \<and> (\<forall>c \<in> set cs.
            case move c of
              None \<Rightarrow> False
            | Some mv \<Rightarrow> mv \<in> set (moves R current) \<and> applicable R (applyMove R current mv) c))"

text \<open>
  What the search relies on in the rules engine: a game that is not over has a legal move;
  and a game built from the FEN string of a game has the legal moves of that game, now and
  after any one of them.
\<close>

definition adapter_contract :: "'g ChessInstance \<Rightarrow> bool" where
  "adapter_contract R =
     ((\<forall>g. \<not> isGameOver R g \<longrightarrow> moves R g \<noteq> [])
      \<and> (\<forall>g. case newChess R (fen R g) of
                None \<Rightarrow> False
              | Some g' \<Rightarrow>
                  moves R g' = moves R g
                  \<and> (\<forall>m \<in> set (moves R g). moves R (applyMove R g' m) = moves R (applyMove R g m))))"

text \<open>\<^verbatim>\<open>Math.random()\<close> returns a value from 0 up to, and not including, 1.\<close>

definition random_ok :: "(nat \<Rightarrow> real) \<Rightarrow> bool" where
  "random_ok rnd = (\<forall>k. 0 \<le> rnd k \<and> rnd k < 1)"

section \<open>A small game behind the interface of the rules engine\<close>

text \<open>
  The search asks the rules engine for nothing but the operations of \<open>ChessInstance\<close>, so it
  runs on any two-player game behind that interface. To run it on concrete positions by
  hand, take the game of Nim with one pile: a player takes one or two stones (the moves
  \<open>''1''\<close> and \<open>''2''\<close>), and the player who faces the empty pile has lost, which the
  interface reports as checkmate. A position is written as the side to move followed by one
  \<open>I\<close> for every stone. The board is the same in every position: a white queen and a
  black pawn.
\<close>

type_synonym nim = "nat \<times> PieceColor"

definition nim_newChess :: "string \<Rightarrow> nim option" where
  "nim_newChess s =
     (case s of
        [] \<Rightarrow> None
      | c # rest \<Rightarrow>
          if (c = CHR ''w'' \<or> c = CHR ''b'') \<and> rest = replicate (length rest) CHR ''I''
          then Some (length rest, if c = CHR ''w'' then White else Black)
          else None)"

definition nim_fen :: "nim \<Rightarrow> string" where
  "nim_fen g = (if snd g = White then CHR ''w'' else CHR ''b'') # replicate (fst g) CHR ''I''"

definition nim_moves :: "nim \<Rightarrow> string list" where
  "nim_moves g = (if fst g = 0 then [] else if fst g = 1 then [''1''] else [''1'', ''2''])"

definition nim_applyMove :: "nim \<Rightarrow> string \<Rightarrow> nim" where
  "nim_applyMove g m =
     (fst g - (if m = ''1'' then 1 else 2), if snd g = White then Black else White)"

definition nim_board :: "nim \<Rightarrow> Square option list list" where
  "nim_board g =
     [[Some \<lparr>square = ''d1'', ptype = Queen, color = White\<rparr>, None],
      [None, Some \<lparr>square = ''e7'', ptype = Pawn, color = Black\<rparr>]]"

definition Nim :: "nim ChessInstance" where
  "Nim =
     \<lparr>newChess = nim_newChess, fen = nim_fen, board = nim_board, applyMove = nim_applyMove,
      turn = snd, moves = nim_moves, isGameOver = (\<lambda>g. fst g = 0),
      isCheckmate = (\<lambda>g. fst g = 0), isDraw = (\<lambda>g. False), isStalemate = (\<lambda>g. False),
      isThreefoldRepetition = (\<lambda>g. False)\<rparr>"


text \<open>
  A sequence of random values, written as the list of its first values; every later value
  is 0.
\<close>

definition random_seq :: "real list \<Rightarrow> nat \<Rightarrow> real" where
  "random_seq rs k = (if k < length rs then rs ! k else 0)"

section \<open>Evaluation on concrete positions\<close>

lemmas nim_simps =
  Nim_def nim_newChess_def nim_fen_def nim_moves_def nim_applyMove_def nim_board_def

lemmas engine_simps =
  getBestMoveMCTS_def search_tree_def mcts_cycle_def expand_def addChild_def make_move_def
  random_pick_def new_MCTSNode_def robust_child_def js_sort_def update_def backprop_val_def
  parent_of_def TIME_LIMIT_MS_def MAX_SIMULATION_DEPTH_def selectChild_def uctValue_def
  simulation_result_def random_seq_def

declare select_loop.simps [simp del]
declare rollout.simps [simp del]
declare backpropagate.simps [simp del]

section \<open>The terminal input position\<close>

lemma no_legal_move_is_game_over:
  assumes "adapter_contract R" and "moves R g = []"
  shows "isGameOver R g"
  using assms unfolding adapter_contract_def by blast

text \<open>
  Claim C3. When the input position is terminal (the rules engine reports the game as
  over: checkmate, stalemate or a draw; by its contract it does so whenever there is no
  legal move, lemma \<open>no_legal_move_is_game_over\<close>), the entry point returns
  \<^verbatim>\<open>null\<close>, and no exception: whatever the clock and the random values are.
\<close>

theorem C3_terminal_position_returns_null:
  assumes "newChess R fen_str = Some rootGame"
    and "isGameOver R rootGame"
  shows "getBestMoveMCTS R clock rnd fen_str = Inr None"
  using assms by (simp add: getBestMoveMCTS_def)

theorem C3_terminal_position_returns_null_witness:
  "newChess Nim ''w'' = Some (0, White) \<and> isGameOver Nim (0, White)
   \<and> getBestMoveMCTS Nim [0, 1000] (random_seq []) ''w'' = Inr None"
proof -
  have a: "newChess Nim ''w'' = Some (0, White)"
    by (simp add: nim_simps)
  have b: "isGameOver Nim (0, White)"
    by (simp add: nim_simps)
  show ?thesis
    using a b C3_terminal_position_returns_null [OF a b, of "[0, 1000]" "random_seq []"] by simp
qed


section \<open>The choice among the children of a node\<close>

lemma foldl_keeps_last_maximum:
  fixes v :: "nat \<Rightarrow> real"
  defines "f \<equiv> \<lambda>prev current. if v prev > v current then prev else current"
  assumes "sorted_wrt (<) (x # xs)"
  shows "foldl f x xs \<in> set (x # xs)
    \<and> (\<forall>y \<in> set (x # xs). v y \<le> v (foldl f x xs))
    \<and> (\<forall>y \<in> set (x # xs). foldl f x xs < y \<longrightarrow> v y < v (foldl f x xs))"
  using assms(2)
proof (induction xs arbitrary: x)
  case Nil
  show ?case by simp
next
  case (Cons y ys)
  let ?r = "foldl f (f x y) ys"
  have xy: "x < y" and xys: "\<forall>z \<in> set ys. x < z" and yys: "\<forall>z \<in> set ys. y < z"
    and sys: "sorted_wrt (<) ys"
    using Cons.prems by auto
  have srt: "sorted_wrt (<) (f x y # ys)"
    using xys yys sys by (simp add: f_def)
  note IH = Cons.IH [OF srt]
  have mem: "?r \<in> set (f x y # ys)" and mx: "\<forall>z \<in> set (f x y # ys). v z \<le> v ?r"
    and lst: "\<forall>z \<in> set (f x y # ys). ?r < z \<longrightarrow> v z < v ?r"
    using IH by blast+
  have fxy: "v x \<le> v (f x y)" "v y \<le> v (f x y)"
    by (simp_all add: f_def)
  have top: "v (f x y) \<le> v ?r"
    using mx by simp
  show ?case
  proof (cases "v x > v y")
    case True
    then have e: "f x y = x" by (simp add: f_def)
    have "v y < v ?r" using True top e by simp
    then show ?thesis using mem mx lst e by auto
  next
    case False
    then have e: "f x y = y" by (simp add: f_def)
    have "x < ?r" using mem e xy xys by auto
    then show ?thesis using mem mx lst e fxy top by auto
  qed
qed

lemma selectChild_last_maximum:
  assumes "children n \<noteq> []"
  shows "\<exists>i < length (children n). selectChild n = Some i
     \<and> (\<forall>j < length (children n).
           uctValue (visits n) (children n ! j) \<le> uctValue (visits n) (children n ! i)
           \<and> (i < j \<longrightarrow> uctValue (visits n) (children n ! j) < uctValue (visits n) (children n ! i)))"
proof -
  let ?v = "\<lambda>j. uctValue (visits n) (children n ! j)"
  let ?f = "\<lambda>prev current. if ?v prev > ?v current then prev else current"
  let ?m = "length (children n)"
  have m: "0 < ?m" using assms by simp
  then have upt: "[0 ..< ?m] = 0 # [1 ..< ?m]"
    by (simp add: upt_conv_Cons)
  have srt: "sorted_wrt (<) (0 # [1 ..< ?m])"
    by simp
  let ?r = "foldl ?f 0 [1 ..< ?m]"
  have sel: "selectChild n = Some ?r"
    unfolding selectChild_def by (subst upt) simp
  note k = foldl_keeps_last_maximum [of 0 "[1 ..< ?m]" ?v, OF srt]
  have set_eq: "set (0 # [1 ..< ?m]) = {0 ..< ?m}"
    using m by auto
  have k1: "?r \<in> {0 ..< ?m}"
    and k2: "\<forall>y \<in> {0 ..< ?m}. ?v y \<le> ?v ?r"
    and k3: "\<forall>y \<in> {0 ..< ?m}. ?r < y \<longrightarrow> ?v y < ?v ?r"
    using k unfolding set_eq by blast+
  have "?r < ?m" using k1 by simp
  moreover have "\<forall>j < ?m. ?v j \<le> ?v ?r \<and> (?r < j \<longrightarrow> ?v j < ?v ?r)"
  proof (intro allI impI)
    fix j assume "j < ?m"
    then have "j \<in> {0 ..< ?m}" by simp
    then show "?v j \<le> ?v ?r \<and> (?r < j \<longrightarrow> ?v j < ?v ?r)"
      using k2 k3 by blast
  qed
  ultimately show ?thesis using sel by blast
qed


text \<open>
  Claim C5, as the code has it. \<^verbatim>\<open>selectChild\<close> keeps the previous child only when its
  priority is strictly greater than the one of the current child, so among children of
  equal maximal priority the one met last (the rightmost in the order of the array) is
  chosen: no child has a greater priority than the chosen one, and every child to its
  right has a strictly smaller one.
\<close>

theorem C5_selectChild_rightmost_maximum:
  assumes "children n \<noteq> []"
  shows "\<exists>i < length (children n). selectChild n = Some i
     \<and> (\<forall>j < length (children n).
           uctValue (visits n) (children n ! j) \<le> uctValue (visits n) (children n ! i)
           \<and> (i < j \<longrightarrow> uctValue (visits n) (children n ! j) < uctValue (visits n) (children n ! i)))"
  using assms by (rule selectChild_last_maximum)

theorem C5_selectChild_rightmost_maximum_witness:
  "children (MCTSNode
         [MCTSNode [] 1 (1 / 2) (Some ''1'') [''1'', ''2''] White,
          MCTSNode [] 1 (1 / 2) (Some ''2'') [''1'', ''2''] White]
         2 1 None [] Black) \<noteq> []
   \<and> (\<exists>i < length (children (MCTSNode
         [MCTSNode [] 1 (1 / 2) (Some ''1'') [''1'', ''2''] White,
          MCTSNode [] 1 (1 / 2) (Some ''2'') [''1'', ''2''] White]
         2 1 None [] Black)). selectChild (MCTSNode
         [MCTSNode [] 1 (1 / 2) (Some ''1'') [''1'', ''2''] White,
          MCTSNode [] 1 (1 / 2) (Some ''2'') [''1'', ''2''] White]
         2 1 None [] Black) = Some i
     \<and> (\<forall>j < length (children (MCTSNode
         [MCTSNode [] 1 (1 / 2) (Some ''1'') [''1'', ''2''] White,
          MCTSNode [] 1 (1 / 2) (Some ''2'') [''1'', ''2''] White]
         2 1 None [] Black)).
           uctValue (visits (MCTSNode
         [MCTSNode [] 1 (1 / 2) (Some ''1'') [''1'', ''2''] White,
          MCTSNode [] 1 (1 / 2) (Some ''2'') [''1'', ''2''] White]
         2 1 None [] Black)) (children (MCTSNode
         [MCTSNode [] 1 (1 / 2) (Some ''1'') [''1'', ''2''] White,
          MCTSNode [] 1 (1 / 2) (Some ''2'') [''1'', ''2''] White]
         2 1 None [] Black) ! j) \<le> uctValue (visits (MCTSNode
         [MCTSNode [] 1 (1 / 2) (Some ''1'') [''1'', ''2''] White,
          MCTSNode [] 1 (1 / 2) (Some ''2'') [''1'', ''2''] White]
         2 1 None [] Black)) (children (MCTSNode
         [MCTSNode [] 1 (1 / 2) (Some ''1'') [''1'', ''2''] White,
          MCTSNode [] 1 (1 / 2) (Some ''2'') [''1'', ''2''] White]
         2 1 None [] Black) ! i)
           \<and> (i < j \<longrightarrow> uctValue (visits (MCTSNode
         [MCTSNode [] 1 (1 / 2) (Some ''1'') [''1'', ''2''] White,
          MCTSNode [] 1 (1 / 2) (Some ''2'') [''1'', ''2''] White]
         2 1 None [] Black)) (children (MCTSNode
         [MCTSNode [] 1 (1 / 2) (Some ''1'') [''1'', ''2''] White,
          MCTSNode [] 1 (1 / 2) (Some ''2'') [''1'', ''2''] White]
         2 1 None [] Black) ! j)
                  < uctValue (visits (MCTSNode
         [MCTSNode [] 1 (1 / 2) (Some ''1'') [''1'', ''2''] White,
          MCTSNode [] 1 (1 / 2) (Some ''2'') [''1'', ''2''] White]
         2 1 None [] Black)) (children (MCTSNode
         [MCTSNode [] 1 (1 / 2) (Some ''1'') [''1'', ''2''] White,
          MCTSNode [] 1 (1 / 2) (Some ''2'') [''1'', ''2''] White]
         2 1 None [] Black) ! i))))"
proof -
  have a: "children (MCTSNode
         [MCTSNode [] 1 (1 / 2) (Some ''1'') [''1'', ''2''] White,
          MCTSNode [] 1 (1 / 2) (Some ''2'') [''1'', ''2''] White]
         2 1 None [] Black) \<noteq> []"
    by simp
  show ?thesis
    using a C5_selectChild_rightmost_maximum [OF a] by blast
qed

text \<open>
  Claim C5, as the specification states it (the leftmost maximum is chosen), fails. From the
  Nim position with 60 stones, the first two cycles expand the two moves of the root, and
  the depth limit cuts both simulations off, so each child has one visit and wins 0.5, and
  the same priority; the selection of the third cycle takes the child of index 1, not the
  child of index 0. The same happens in every position where the simulations of the first
  visits of two children end alike.
\<close>

theorem C5_leftmost_maximum_counterexample:
  "search_tree Nim [0, 1, 2, 1000] (random_seq []) (CHR ''w'' # replicate 60 CHR ''I'')
      (60, White) = Inr (MCTSNode
         [MCTSNode [] 1 (1 / 2) (Some ''1'') [''1'', ''2''] White,
          MCTSNode [] 1 (1 / 2) (Some ''2'') [''1'', ''2''] White]
         2 1 None [] Black)
   \<and> uctValue (visits (MCTSNode
         [MCTSNode [] 1 (1 / 2) (Some ''1'') [''1'', ''2''] White,
          MCTSNode [] 1 (1 / 2) (Some ''2'') [''1'', ''2''] White]
         2 1 None [] Black)) (children (MCTSNode
         [MCTSNode [] 1 (1 / 2) (Some ''1'') [''1'', ''2''] White,
          MCTSNode [] 1 (1 / 2) (Some ''2'') [''1'', ''2''] White]
         2 1 None [] Black) ! 0) = uctValue (visits (MCTSNode
         [MCTSNode [] 1 (1 / 2) (Some ''1'') [''1'', ''2''] White,
          MCTSNode [] 1 (1 / 2) (Some ''2'') [''1'', ''2''] White]
         2 1 None [] Black)) (children (MCTSNode
         [MCTSNode [] 1 (1 / 2) (Some ''1'') [''1'', ''2''] White,
          MCTSNode [] 1 (1 / 2) (Some ''2'') [''1'', ''2''] White]
         2 1 None [] Black) ! 1)
   \<and> selectChild (MCTSNode
         [MCTSNode [] 1 (1 / 2) (Some ''1'') [''1'', ''2''] White,
          MCTSNode [] 1 (1 / 2) (Some ''2'') [''1'', ''2''] White]
         2 1 None [] Black) = Some 1"
proof -
  have "search_tree Nim [0, 1, 2, 1000] (random_seq []) (CHR ''w'' # replicate 60 CHR ''I'')
      (60, White) = Inr (MCTSNode
         [MCTSNode [] 1 (1 / 2) (Some ''1'') [''1'', ''2''] White,
          MCTSNode [] 1 (1 / 2) (Some ''2'') [''1'', ''2''] White]
         2 1 None [] Black)"
    by (simp add: nim_simps engine_simps select_loop.simps rollout.simps backpropagate.simps)
  moreover have "selectChild (MCTSNode
         [MCTSNode [] 1 (1 / 2) (Some ''1'') [''1'', ''2''] White,
          MCTSNode [] 1 (1 / 2) (Some ''2'') [''1'', ''2''] White]
         2 1 None [] Black) = Some 1"
    by (simp add: selectChild_def uctValue_def)
  ultimately show ?thesis
    by (simp add: uctValue_def)
qed

section \<open>The move returned\<close>

lemma length_insert_cmp: "length (insert_cmp cmp x ys) = Suc (length ys)"
  by (induction ys) auto

lemma length_js_sort: "length (js_sort cmp xs) = length xs"
  by (induction xs) (auto simp: js_sort_def length_insert_cmp)

lemma js_sort_eq_Nil: "js_sort cmp xs = [] \<longleftrightarrow> xs = []"
  using length_js_sort [of cmp xs] by (metis length_0_conv)

lemma set_insert_cmp: "set (insert_cmp cmp x ys) = insert x (set ys)"
  by (induction ys) auto

lemma set_js_sort: "set (js_sort cmp xs) = set xs"
  by (induction xs) (auto simp: js_sort_def set_insert_cmp)

lemma js_sort_head_first_maximum:
  fixes xs :: "MCTSNode list"
  defines "cmp \<equiv> \<lambda>a b. int (visits b) - int (visits a)"
  assumes "xs \<noteq> []"
  shows "\<exists>i < length xs. js_sort cmp xs ! 0 = xs ! i
    \<and> (\<forall>j < length xs. visits (xs ! j) \<le> visits (xs ! i))
    \<and> (\<forall>j < i. visits (xs ! j) < visits (xs ! i))"
  using assms(2)
proof (induction xs)
  case Nil
  then show ?case by simp
next
  case (Cons x xs)
  show ?case
  proof (cases "xs = []")
    case True
    then show ?thesis by (simp add: js_sort_def)
  next
    case False
    from Cons.IH [OF False] obtain i where i: "i < length xs"
      and hd: "js_sort cmp xs ! 0 = xs ! i"
      and mx: "\<forall>j < length xs. visits (xs ! j) \<le> visits (xs ! i)"
      and fst: "\<forall>j < i. visits (xs ! j) < visits (xs ! i)"
      by blast
    obtain h t where ht: "js_sort cmp xs = h # t"
      using False length_js_sort [of cmp xs] by (cases "js_sort cmp xs") auto
    have h: "h = xs ! i" using hd ht by simp
    have step: "js_sort cmp (x # xs) = insert_cmp cmp x (h # t)"
      using ht by (simp add: js_sort_def)
    show ?thesis
    proof (cases "visits h \<le> visits x")
      case True
      then have "js_sort cmp (x # xs) ! 0 = x"
        using step by (simp add: cmp_def)
      moreover have "\<forall>j < length (x # xs). visits ((x # xs) ! j) \<le> visits x"
      proof (intro allI impI)
        fix j assume "j < length (x # xs)"
        then show "visits ((x # xs) ! j) \<le> visits x"
          using True mx h by (cases j) (auto intro: order_trans)
      qed
      ultimately show ?thesis
        by (intro exI [of _ 0]) simp
    next
      case False
      then have "js_sort cmp (x # xs) ! 0 = (x # xs) ! Suc i"
        using step h by (simp add: cmp_def)
      moreover have "\<forall>j < length (x # xs). visits ((x # xs) ! j) \<le> visits ((x # xs) ! Suc i)"
      proof (intro allI impI)
        fix j assume "j < length (x # xs)"
        then show "visits ((x # xs) ! j) \<le> visits ((x # xs) ! Suc i)"
          using False mx h by (cases j) auto
      qed
      moreover have "\<forall>j < Suc i. visits ((x # xs) ! j) < visits ((x # xs) ! Suc i)"
      proof (intro allI impI)
        fix j assume "j < Suc i"
        then show "visits ((x # xs) ! j) < visits ((x # xs) ! Suc i)"
          using False fst h by (cases j) auto
      qed
      ultimately show ?thesis
        using i by (intro exI [of _ "Suc i"]) simp
    qed
  qed
qed


text \<open>
  Claim C2. When the search has completed and the root has a child, the move returned is
  the move of a child of the root that has the greatest number of visits among the children
  of the root, and every child to its left has strictly fewer visits: among the children
  with the greatest number of visits it is the leftmost.
\<close>

theorem C2_robust_child_leftmost_maximum:
  assumes "newChess R fen_str = Some rootGame"
    and "\<not> isGameOver R rootGame"
    and "search_tree R clock rnd fen_str rootGame = Inr tree"
    and "children tree \<noteq> []"
  shows "\<exists>i < length (children tree).
      getBestMoveMCTS R clock rnd fen_str = Inr (move (children tree ! i))
    \<and> (\<forall>j < length (children tree). visits (children tree ! j) \<le> visits (children tree ! i))
    \<and> (\<forall>j < i. visits (children tree ! j) < visits (children tree ! i))"
proof -
  have "getBestMoveMCTS R clock rnd fen_str
      = Inr (move (js_sort (\<lambda>a b. int (visits b) - int (visits a)) (children tree) ! 0))"
    using assms by (simp add: getBestMoveMCTS_def robust_child_def js_sort_eq_Nil)
  then show ?thesis
    using js_sort_head_first_maximum [OF assms(4)] by metis
qed


theorem C2_robust_child_leftmost_maximum_witness:
  "newChess Nim ''wII'' = Some (2, White) \<and> \<not> isGameOver Nim (2, White)
   \<and> search_tree Nim [0, 1, 2, 1000] (random_seq []) ''wII'' (2, White) = Inr (MCTSNode
         [MCTSNode [] 1 0 (Some ''1'') [''1''] White, MCTSNode [] 1 1 (Some ''2'') [] White]
         2 1 None [] Black)
   \<and> children (MCTSNode
         [MCTSNode [] 1 0 (Some ''1'') [''1''] White, MCTSNode [] 1 1 (Some ''2'') [] White]
         2 1 None [] Black) \<noteq> []
   \<and> getBestMoveMCTS Nim [0, 1, 2, 1000] (random_seq []) ''wII'' = Inr (Some ''1'')
   \<and> (\<exists>i < length (children (MCTSNode
         [MCTSNode [] 1 0 (Some ''1'') [''1''] White, MCTSNode [] 1 1 (Some ''2'') [] White]
         2 1 None [] Black)).
        getBestMoveMCTS Nim [0, 1, 2, 1000] (random_seq []) ''wII'' = Inr (move (children (MCTSNode
         [MCTSNode [] 1 0 (Some ''1'') [''1''] White, MCTSNode [] 1 1 (Some ''2'') [] White]
         2 1 None [] Black) ! i))
      \<and> (\<forall>j < length (children (MCTSNode
         [MCTSNode [] 1 0 (Some ''1'') [''1''] White, MCTSNode [] 1 1 (Some ''2'') [] White]
         2 1 None [] Black)). visits (children (MCTSNode
         [MCTSNode [] 1 0 (Some ''1'') [''1''] White, MCTSNode [] 1 1 (Some ''2'') [] White]
         2 1 None [] Black) ! j) \<le> visits (children (MCTSNode
         [MCTSNode [] 1 0 (Some ''1'') [''1''] White, MCTSNode [] 1 1 (Some ''2'') [] White]
         2 1 None [] Black) ! i))
      \<and> (\<forall>j < i. visits (children (MCTSNode
         [MCTSNode [] 1 0 (Some ''1'') [''1''] White, MCTSNode [] 1 1 (Some ''2'') [] White]
         2 1 None [] Black) ! j) < visits (children (MCTSNode
         [MCTSNode [] 1 0 (Some ''1'') [''1''] White, MCTSNode [] 1 1 (Some ''2'') [] White]
         2 1 None [] Black) ! i)))"
proof -
  have a: "newChess Nim ''wII'' = Some (2, White)"
    by (simp add: nim_simps)
  have b: "\<not> isGameOver Nim (2, White)"
    by (simp add: nim_simps)
  have c: "search_tree Nim [0, 1, 2, 1000] (random_seq []) ''wII'' (2, White) = Inr (MCTSNode
         [MCTSNode [] 1 0 (Some ''1'') [''1''] White, MCTSNode [] 1 1 (Some ''2'') [] White]
         2 1 None [] Black)"
    by (simp add: nim_simps engine_simps select_loop.simps rollout.simps backpropagate.simps)
  have d: "children (MCTSNode
         [MCTSNode [] 1 0 (Some ''1'') [''1''] White, MCTSNode [] 1 1 (Some ''2'') [] White]
         2 1 None [] Black) \<noteq> []"
    by simp
  have e: "getBestMoveMCTS Nim [0, 1, 2, 1000] (random_seq []) ''wII'' = Inr (Some ''1'')"
    using a b c by (simp add: getBestMoveMCTS_def robust_child_def js_sort_def)
  show ?thesis
    using a b c d e C2_robust_child_leftmost_maximum [OF a b c d] by blast
qed

section \<open>Visits\<close>

lemma update_path_snoc:
  "update_path f p (modify_at f (p @ [i]) tree) = update_path f (p @ [i]) tree"
proof (induction p arbitrary: tree)
  case Nil
  show ?case by simp
next
  case (Cons j q)
  show ?case
  proof (cases "j < length (children tree)")
    case True
    then show ?thesis using Cons.IH by simp
  next
    case False
    then show ?thesis by (simp add: list_update_beyond)
  qed
qed

lemma backpropagate_update_path:
  "backpropagate R g tree (Some p)
     = update_path (\<lambda>n. update (backprop_val R g n) n) p tree"
proof (induction p arbitrary: tree rule: rev_induct)
  case Nil
  show ?case
    by (simp add: backpropagate.simps parent_of_def)
next
  case (snoc i p)
  have "backpropagate R g tree (Some (p @ [i]))
      = backpropagate R g (modify_at (\<lambda>n. update (backprop_val R g n) n) (p @ [i]) tree) (Some p)"
    by (subst backpropagate.simps) (simp add: parent_of_def)
  then show ?case
    using snoc.IH by (simp add: update_path_snoc)
qed

lemma visits_ok_sel:
  "visits_ok n = (\<forall>c \<in> set (children n). visits c \<le> visits n \<and> visits_ok c)"
  by (cases n) simp

lemma visits_update_path:
  assumes "\<And>n. visits (f n) = Suc (visits n)"
  shows "visits (update_path f p tree) = Suc (visits tree)"
  using assms by (cases p) simp_all

lemma visits_ok_update_path:
  assumes f: "\<And>n. visits (f n) = Suc (visits n)" "\<And>n. children (f n) = children n"
    and ok: "visits_ok tree"
  shows "visits_ok (update_path f p tree)"
  using ok
proof (induction p arbitrary: tree)
  case Nil
  then show ?case
    using f by (subst visits_ok_sel, subst (asm) visits_ok_sel) (auto simp: le_Suc_eq)
next
  case (Cons i p)
  let ?c = "update_path f p (children tree ! i)"
  have old: "\<forall>c \<in> set (children tree). visits c \<le> visits tree \<and> visits_ok c"
    using Cons.prems by (subst (asm) visits_ok_sel)
  have "\<forall>c \<in> set ((children tree)[i := ?c]). visits c \<le> Suc (visits tree) \<and> visits_ok c"
  proof
    fix c assume "c \<in> set ((children tree)[i := ?c])"
    then have "c = ?c \<and> i < length (children tree) \<or> c \<in> set (children tree)"
      by (metis in_set_conv_nth length_list_update nth_list_update_eq nth_list_update_neq)
    then show "visits c \<le> Suc (visits tree) \<and> visits_ok c"
    proof
      assume c: "c = ?c \<and> i < length (children tree)"
      then have m: "children tree ! i \<in> set (children tree)" by simp
      have "visits_ok ?c" using Cons.IH old m by blast
      moreover have "visits ?c = Suc (visits (children tree ! i))"
        using f(1) by (rule visits_update_path)
      ultimately show ?thesis using c old m by auto
    next
      assume "c \<in> set (children tree)"
      then show ?thesis using old by (auto simp: le_Suc_eq)
    qed
  qed
  then show ?case
    using f by (subst visits_ok_sel) simp
qed

lemma ball_set_updateI:
  assumes "\<forall>c \<in> set xs. P c" and "i < length xs \<Longrightarrow> P y"
  shows "\<forall>c \<in> set (xs[i := y]). P c"
proof
  fix c assume "c \<in> set (xs[i := y])"
  then have "c = y \<and> i < length xs \<or> c \<in> set xs"
    by (metis in_set_conv_nth length_list_update nth_list_update_eq nth_list_update_neq)
  then show "P c" using assms by blast
qed

lemma visits_replace_at:
  assumes "visits n' = visits (node_at tree p)"
  shows "visits (modify_at (\<lambda>_. n') p tree) = visits tree"
  using assms by (cases p) simp_all

lemma visits_ok_replace_at:
  assumes "visits n' = visits (node_at tree p)"
    and "visits_ok (node_at tree p) \<Longrightarrow> visits_ok n'"
    and "visits_ok tree"
  shows "visits_ok (modify_at (\<lambda>_. n') p tree)"
  using assms
proof (induction p arbitrary: tree)
  case Nil
  then show ?case by simp
next
  case (Cons i p)
  let ?c = "modify_at (\<lambda>_. n') p (children tree ! i)"
  have old: "\<forall>c \<in> set (children tree). visits c \<le> visits tree \<and> visits_ok c"
    using Cons.prems(3) by (subst (asm) visits_ok_sel)
  have new: "visits ?c \<le> visits tree \<and> visits_ok ?c" if i: "i < length (children tree)"
  proof -
    have m: "children tree ! i \<in> set (children tree)" using i by simp
    have "visits ?c = visits (children tree ! i)"
      using Cons.prems(1) by (intro visits_replace_at) simp
    moreover have "visits_ok ?c"
      using Cons.prems(1,2) old m by (intro Cons.IH) auto
    ultimately show ?thesis using old m by auto
  qed
  have "\<forall>c \<in> set ((children tree)[i := ?c]). visits c \<le> visits tree \<and> visits_ok c"
    using old new by (rule ball_set_updateI)
  then show ?case
    by (subst visits_ok_sel) simp
qed

lemma make_move_Inr:
  "make_move R g mv = Inr g' \<longleftrightarrow> (\<exists>m. mv = Some m \<and> m \<in> set (moves R g) \<and> g' = applyMove R g m)"
  by (auto simp: make_move_def split: option.splits)

lemma addChild_Inr:
  assumes "addChild R a this mv g = Inr this'"
  obtains newGame m child where "newChess R (fen R g) = Some newGame" and "mv = Some m"
    and "m \<in> set (moves R newGame)"
    and "child = MCTSNode [] 0 0 (Some m) (moves R (applyMove R newGame m))
                   (if turn R (applyMove R newGame m) = White then Black else White)"
    and "this' = MCTSNode (children this @ [child]) (visits this) (wins this) (move this)
                   (filter (\<lambda>x. x \<noteq> m) (untriedMoves this)) (playerJustMoved this)"
proof -
  from assms obtain newGame newGame' where n: "newChess R (fen R g) = Some newGame"
    and mm: "make_move R newGame mv = Inr newGame'"
    and t: "this' = MCTSNode (children this @ [new_MCTSNode R newGame' (Some a) mv])
              (visits this) (wins this) (move this)
              (filter (\<lambda>m. Some m \<noteq> mv) (untriedMoves this)) (playerJustMoved this)"
    by (auto simp: addChild_def Let_def split: option.splits sum.splits)
  from mm obtain m where m: "mv = Some m" "m \<in> set (moves R newGame)"
    "newGame' = applyMove R newGame m"
    by (auto simp: make_move_Inr)
  show thesis
    using n m t by (intro that [of newGame m]) (simp_all add: new_MCTSNode_def)
qed

lemma addChild_visits:
  assumes "addChild R a this mv g = Inr this'"
  shows "visits this' = visits this" and "visits_ok this \<Longrightarrow> visits_ok this'"
proof -
  from assms obtain newGame m child where
    c: "child = MCTSNode [] 0 0 (Some m) (moves R (applyMove R newGame m))
                   (if turn R (applyMove R newGame m) = White then Black else White)"
    and t: "this' = MCTSNode (children this @ [child]) (visits this) (wins this) (move this)
                   (filter (\<lambda>x. x \<noteq> m) (untriedMoves this)) (playerJustMoved this)"
    by (rule addChild_Inr)
  show "visits this' = visits this" using t by simp
  have "visits_ok child" "visits child = 0" using c by simp_all
  then show "visits_ok this'" if "visits_ok this"
    using that t by (subst visits_ok_sel, subst (asm) visits_ok_sel) auto
qed

lemma expand_visits:
  assumes "expand R rnd k tree node g = Inr (tree1, node1, g1, k1)"
  shows "visits tree1 = visits tree \<and> (visits_ok tree \<longrightarrow> visits_ok tree1)"
proof (cases "length (untriedMoves (node_at tree node)) > 0 \<and> \<not> isGameOver R g")
  case False
  then show ?thesis using assms by (auto simp: expand_def)
next
  case True
  then obtain this' where a: "addChild R node (node_at tree node)
        (random_pick (rnd k) (untriedMoves (node_at tree node))) g = Inr this'"
    and t: "tree1 = modify_at (\<lambda>_. this') node tree"
    using assms by (auto simp: expand_def Let_def split: sum.splits)
  show ?thesis
    unfolding t
    using addChild_visits [OF a] visits_replace_at visits_ok_replace_at by metis
qed

lemma mcts_cycle_visits:
  assumes "mcts_cycle R rnd fen_str k tree = Inr (tree', k')"
  shows "visits tree' = Suc (visits tree) \<and> (visits_ok tree \<longrightarrow> visits_ok tree')"
proof -
  from assms obtain g3 :: 'a and tree1 node1 node and g1 g2 :: 'a and k1 where
    e: "expand R rnd k tree node g1 = Inr (tree1, node1, g2, k1)"
    and t: "tree' = backpropagate R g3 tree1 (Some node1)"
    by (auto simp: mcts_cycle_def Let_def split: option.splits sum.splits prod.splits)
  let ?f = "\<lambda>n. update (backprop_val R g3 n) n"
  have f: "\<And>n. visits (?f n) = Suc (visits n)" "\<And>n. children (?f n) = children n"
    by (simp_all add: update_def)
  have t': "tree' = update_path ?f node1 tree1"
    using t by (simp add: backpropagate_update_path)
  show ?thesis
    unfolding t'
    using expand_visits [OF e] visits_update_path [of ?f, OF f(1)]
      visits_ok_update_path [of ?f, OF f]
    by simp
qed

lemma run_cycles_visits:
  assumes "run_cycles R rnd fen_str n k tree = Inr (tree', k')"
  shows "visits tree' = visits tree + n \<and> (visits_ok tree \<longrightarrow> visits_ok tree')"
  using assms
proof (induction n arbitrary: k tree)
  case 0
  then show ?case by simp
next
  case (Suc n)
  then obtain t1 k1 where c: "mcts_cycle R rnd fen_str k tree = Inr (t1, k1)"
    and r: "run_cycles R rnd fen_str n k1 t1 = Inr (tree', k')"
    by (auto split: sum.splits)
  show ?case
    using mcts_cycle_visits [OF c] Suc.IH [OF r] by simp
qed

lemma mcts_loop_run_cycles:
  assumes "mcts_loop R rnd fen_str startTime clock k tree = Inr tree'"
  shows "\<exists>k'. run_cycles R rnd fen_str
            (length (takeWhile (\<lambda>now. now - startTime < 1000) clock)) k tree = Inr (tree', k')"
  using assms
proof (induction clock arbitrary: k tree)
  case Nil
  then show ?case by simp
next
  case (Cons now clock)
  show ?case
  proof (cases "now - startTime < 1000")
    case True
    then obtain t1 k1 where c: "mcts_cycle R rnd fen_str k tree = Inr (t1, k1)"
      and r: "mcts_loop R rnd fen_str startTime clock k1 t1 = Inr tree'"
      using Cons.prems by (auto simp: TIME_LIMIT_MS_def split: sum.splits)
    show ?thesis
      using Cons.IH [OF r] c True by simp
  next
    case False
    then show ?thesis using Cons.prems by (simp add: TIME_LIMIT_MS_def)
  qed
qed

lemma is_node_snoc:
  "is_node tree (p @ [i]) \<longleftrightarrow> is_node tree p \<and> i < length (children (node_at tree p))"
  by (induction p arbitrary: tree) auto

lemma node_at_snoc:
  "node_at tree (p @ [i]) = children (node_at tree p) ! i"
  by (induction p arbitrary: tree) auto

lemma visits_ok_node_at:
  assumes "visits_ok tree" and "is_node tree p"
  shows "visits_ok (node_at tree p)"
  using assms
proof (induction p arbitrary: tree)
  case Nil
  then show ?case by simp
next
  case (Cons i p)
  then have "visits_ok (children tree ! i)"
    by (subst (asm) visits_ok_sel) simp
  then show ?case using Cons by simp
qed

lemma visits_ok_parent:
  assumes "visits_ok tree" and "is_node tree p" and "parent_of p = Some q"
  shows "visits (node_at tree p) \<le> visits (node_at tree q)"
proof -
  from assms(3) obtain i where p: "p = q @ [i]"
    by (cases p rule: rev_cases) (auto simp: parent_of_def)
  have q: "is_node tree q" and i: "i < length (children (node_at tree q))"
    using assms(2) p by (simp_all add: is_node_snoc)
  have "visits_ok (node_at tree q)"
    using assms(1) q by (rule visits_ok_node_at)
  then show ?thesis
    using i p by (subst (asm) visits_ok_sel) (simp add: node_at_snoc)
qed

text \<open>
  Claim C7. In the tree of a completed search, the node at every address other than the
  root has at most as many visits as its parent; the tree is the result of as many cycles as
  the root has visits, and that number is the number of times the loop found the elapsed
  time below the budget before it found it at or above the budget.
\<close>

theorem C7_visits_bounded_by_parent_and_root_counts_cycles:
  assumes "search_tree R (startTime # clock) rnd fen_str rootGame = Inr tree"
  shows "(\<forall>p q. is_node tree p \<and> parent_of p = Some q
            \<longrightarrow> visits (node_at tree p) \<le> visits (node_at tree q))
    \<and> (\<exists>k. run_cycles R rnd fen_str (visits tree) 0 (new_MCTSNode R rootGame None None)
              = Inr (tree, k))
    \<and> visits tree = length (takeWhile (\<lambda>now. now - startTime < 1000) clock)"
proof -
  let ?root = "new_MCTSNode R rootGame None None"
  let ?n = "length (takeWhile (\<lambda>now. now - startTime < 1000) clock)"
  have l: "mcts_loop R rnd fen_str startTime clock 0 ?root = Inr tree"
    using assms by (simp add: search_tree_def)
  then obtain k where r: "run_cycles R rnd fen_str ?n 0 ?root = Inr (tree, k)"
    using mcts_loop_run_cycles by blast
  have root: "visits ?root = 0" "visits_ok ?root"
    by (simp_all add: new_MCTSNode_def)
  have v: "visits tree = ?n" and ok: "visits_ok tree"
    using run_cycles_visits [OF r] root by simp_all
  show ?thesis
    using v ok r visits_ok_parent by auto
qed

theorem C7_visits_bounded_by_parent_and_root_counts_cycles_witness:
  "search_tree Nim (0 # [1, 2, 3, 1000]) (random_seq []) ''wII'' (2, White) = Inr (MCTSNode
         [MCTSNode [] 1 0 (Some ''1'') [''1''] White, MCTSNode [] 2 2 (Some ''2'') [] White]
         3 1 None [] Black)
   \<and> is_node (MCTSNode
         [MCTSNode [] 1 0 (Some ''1'') [''1''] White, MCTSNode [] 2 2 (Some ''2'') [] White]
         3 1 None [] Black) [1] \<and> parent_of [1] = Some []
   \<and> visits (node_at (MCTSNode
         [MCTSNode [] 1 0 (Some ''1'') [''1''] White, MCTSNode [] 2 2 (Some ''2'') [] White]
         3 1 None [] Black) [1]) \<le> visits (node_at (MCTSNode
         [MCTSNode [] 1 0 (Some ''1'') [''1''] White, MCTSNode [] 2 2 (Some ''2'') [] White]
         3 1 None [] Black) [])
   \<and> (\<exists>k. run_cycles Nim (random_seq []) ''wII'' (visits (MCTSNode
         [MCTSNode [] 1 0 (Some ''1'') [''1''] White, MCTSNode [] 2 2 (Some ''2'') [] White]
         3 1 None [] Black)) 0
              (new_MCTSNode Nim (2, White) None None) = Inr ((MCTSNode
         [MCTSNode [] 1 0 (Some ''1'') [''1''] White, MCTSNode [] 2 2 (Some ''2'') [] White]
         3 1 None [] Black), k))
   \<and> visits (MCTSNode
         [MCTSNode [] 1 0 (Some ''1'') [''1''] White, MCTSNode [] 2 2 (Some ''2'') [] White]
         3 1 None [] Black) = length (takeWhile (\<lambda>now. now - 0 < 1000) [1, 2, 3, 1000 :: int])"
proof -
  have a: "search_tree Nim (0 # [1, 2, 3, 1000]) (random_seq []) ''wII'' (2, White) = Inr (MCTSNode
         [MCTSNode [] 1 0 (Some ''1'') [''1''] White, MCTSNode [] 2 2 (Some ''2'') [] White]
         3 1 None [] Black)"
    by (simp add: nim_simps engine_simps select_loop.simps rollout.simps backpropagate.simps)
  have b: "is_node (MCTSNode
         [MCTSNode [] 1 0 (Some ''1'') [''1''] White, MCTSNode [] 2 2 (Some ''2'') [] White]
         3 1 None [] Black) [1]" "parent_of [1] = Some []"
    by (simp_all add: parent_of_def)
  show ?thesis
    using a b C7_visits_bounded_by_parent_and_root_counts_cycles [OF a] by blast
qed

section \<open>The time budget\<close>

lemma mcts_loop_exit:
  assumes "\<forall>t \<in> set before. t - startTime < 1000" and "1000 \<le> now - startTime"
  shows "mcts_loop R rnd fen_str startTime (before @ now # after) k tree
     = (case run_cycles R rnd fen_str (length before) k tree of
          Inl e \<Rightarrow> Inl e
        | Inr (tree', k') \<Rightarrow> Inr tree')"
  using assms(1)
proof (induction before arbitrary: k tree)
  case Nil
  show ?case using assms(2) by (simp add: TIME_LIMIT_MS_def)
next
  case (Cons t before)
  then show ?case
    by (simp add: TIME_LIMIT_MS_def split: sum.splits prod.splits)
qed

lemma getBestMoveMCTS_cycles:
  assumes "\<forall>t \<in> set before. t - startTime < 1000" and "1000 \<le> now - startTime"
  shows "getBestMoveMCTS R (startTime # before @ now # after) rnd fen_str
     = (case newChess R fen_str of
          None \<Rightarrow> Inl InvalidFen
        | Some rootGame \<Rightarrow>
            if isGameOver R rootGame then Inr None
            else
              (case run_cycles R rnd fen_str (length before) 0
                      (new_MCTSNode R rootGame None None) of
                 Inl e \<Rightarrow> Inl e
               | Inr (tree, k) \<Rightarrow> Inr (robust_child tree)))"
proof -
  have st: "search_tree R (startTime # before @ now # after) rnd fen_str g
      = (case run_cycles R rnd fen_str (length before) 0 (new_MCTSNode R g None None) of
           Inl e \<Rightarrow> Inl e
         | Inr (tree', k') \<Rightarrow> Inr tree')" for g
    by (simp add: search_tree_def mcts_loop_exit [OF assms])
  show ?thesis
    unfolding getBestMoveMCTS_def st
    by (auto split: option.splits sum.splits prod.splits)
qed

text \<open>
  Claim C4, as the code has it. The entry point takes the position and nothing else; the
  budget is the constant 1000 ms. When the clock is read \<open>startTime\<close> at the start, then
  values less than 1000 ms later at the tests of the loop (\<open>before\<close>), then a value at
  least 1000 ms later (\<open>now\<close>), the search is one cycle for every value of \<open>before\<close>
  and the choice of the child of the root; what the clock shows afterwards (\<open>after\<close>)
  does not matter.
\<close>

theorem C4_budget_is_the_constant_1000_ms:
  assumes "\<forall>t \<in> set before. t - startTime < 1000" and "1000 \<le> now - startTime"
  shows "getBestMoveMCTS R (startTime # before @ now # after) rnd fen_str
     = (case newChess R fen_str of
          None \<Rightarrow> Inl InvalidFen
        | Some rootGame \<Rightarrow>
            if isGameOver R rootGame then Inr None
            else
              (case run_cycles R rnd fen_str (length before) 0
                      (new_MCTSNode R rootGame None None) of
                 Inl e \<Rightarrow> Inl e
               | Inr (tree, k) \<Rightarrow> Inr (robust_child tree)))"
  using assms by (rule getBestMoveMCTS_cycles)

theorem C4_budget_is_the_constant_1000_ms_witness:
  "(1::int) - 0 < 1000 \<and> (1000::int) \<le> 1200 - 0
   \<and> getBestMoveMCTS Nim (0 # [1] @ 1200 # [1400, 3500]) (random_seq []) ''wII''
       = Inr (Some ''1'')"
proof -
  have a: "\<forall>t \<in> set [1 :: int]. t - 0 < 1000" by simp
  have b: "(1000::int) \<le> 1200 - 0" by simp
  have "getBestMoveMCTS Nim (0 # [1] @ 1200 # [1400, 3500]) (random_seq []) ''wII''
       = Inr (Some ''1'')"
    by (subst C4_budget_is_the_constant_1000_ms [OF a b])
      (simp add: nim_simps engine_simps select_loop.simps rollout.simps backpropagate.simps)
  then show ?thesis by simp
qed

text \<open>
  Claim C4, as the specification states it (the entry point takes a budget that replaces
  the default), fails: with a budget of 3000 ms and a clock that shows 0, 1, 1200, 1400 and
  3500 ms, the entry point of the specification runs three cycles and returns the move
  \<open>''2''\<close>; the entry point of the source has no such argument, leaves its loop at
  1200 ms after one cycle and returns the move \<open>''1''\<close>.
\<close>

theorem C4_budget_override_counterexample:
  "selectMove Nim (Some 3000) [0, 1, 1200, 1400, 3500] (random_seq []) ''wII'' = Inr (Some ''2'')
   \<and> getBestMoveMCTS Nim [0, 1, 1200, 1400, 3500] (random_seq []) ''wII'' = Inr (Some ''1'')"
  by (simp add: selectMove_def nim_simps engine_simps select_loop.simps rollout.simps
      backpropagate.simps)

text \<open>
  Claim C9, as the code has it. The entry point takes no random source and no seed: it
  reads \<^verbatim>\<open>Math.random()\<close>. Two calls on the same position that read the same random
  values, and whose loops find the elapsed time below 1000 ms the same number of times
  before they find it at or above, return the same result.
\<close>

theorem C9_same_random_values_and_cycles_same_move:
  assumes "\<forall>t \<in> set before1. t - start1 < 1000" and "1000 \<le> now1 - start1"
    and "\<forall>t \<in> set before2. t - start2 < 1000" and "1000 \<le> now2 - start2"
    and "length before1 = length before2"
  shows "getBestMoveMCTS R (start1 # before1 @ now1 # after1) rnd fen_str
       = getBestMoveMCTS R (start2 # before2 @ now2 # after2) rnd fen_str"
  using assms(5)
  by (simp only: getBestMoveMCTS_cycles [OF assms(1,2)] getBestMoveMCTS_cycles [OF assms(3,4)])

theorem C9_same_random_values_and_cycles_same_move_witness:
  "(5::int) - 0 < 1000 \<and> (1000::int) \<le> 1000 - 0
   \<and> (600::int) - 100 < 1000 \<and> (1000::int) \<le> 1100 - 100
   \<and> length [5 :: int] = length [600 :: int]
   \<and> getBestMoveMCTS Nim (0 # [5] @ 1000 # []) (random_seq []) ''wII''
       = getBestMoveMCTS Nim (100 # [600] @ 1100 # [7]) (random_seq []) ''wII''"
proof -
  have a: "\<forall>t \<in> set [5 :: int]. t - 0 < 1000" "(1000::int) \<le> 1000 - 0" by simp_all
  have b: "\<forall>t \<in> set [600 :: int]. t - 100 < 1000" "(1000::int) \<le> 1100 - 100" by simp_all
  have c: "length [5 :: int] = length [600 :: int]" by simp
  have "getBestMoveMCTS Nim (0 # [5] @ 1000 # []) (random_seq []) ''wII''
       = getBestMoveMCTS Nim (100 # [600] @ 1100 # [7]) (random_seq []) ''wII''"
    by (rule C9_same_random_values_and_cycles_same_move [OF a b c])
  then show ?thesis by simp
qed

text \<open>
  Claim C9, as the specification states it, fails: the same position, the same random
  values and the same budget, and two results. The clock of the first call lets one cycle
  run, the clock of the second call three.
\<close>

theorem C9_determinism_counterexample:
  "getBestMoveMCTS Nim [0, 1, 1000] (random_seq []) ''wII'' = Inr (Some ''1'')
   \<and> getBestMoveMCTS Nim [0, 1, 2, 3, 1000] (random_seq []) ''wII'' = Inr (Some ''2'')"
  by (simp add: nim_simps engine_simps select_loop.simps rollout.simps backpropagate.simps)

section \<open>The value added by the backpropagation\<close>

lemma backprop_val_not_over:
  assumes "isCheckmate R g \<longrightarrow> isGameOver R g" and "\<not> isGameOver R g"
  shows "backprop_val R g n = 1 / 2"
  using assms by (auto simp: backprop_val_def)

text \<open>
  Claim C1 (the value added to the nodes after a simulation that the depth limit has cut
  off is the material heuristic) does not hold of the code. From the Nim position with 60
  stones, the first cycle adds a child for the move \<open>''1''\<close>; the simulation plays 50
  moves and stops at 9 stones, the game not over; the variable \<^verbatim>\<open>result\<close> is
  0.5 + (9 - 1) / 100 = 0.58 for the player who moved into the child; and the
  backpropagation adds 0.5 to the wins of the child and of the root.
\<close>

theorem C1_depth_cap_credits_one_half:
  "mcts_cycle Nim (random_seq []) (CHR ''w'' # replicate 60 CHR ''I'') 0
      (new_MCTSNode Nim (60, White) None None)
     = Inr (MCTSNode [MCTSNode [] 1 (1 / 2) (Some ''1'') [''1'', ''2''] White] 1 (1 / 2) None
              [''2''] Black, 51)
   \<and> rollout Nim (random_seq []) 1 (59, Black) 0 = Inr ((9, Black), 51)
   \<and> \<not> isGameOver Nim (9, Black)
   \<and> simulation_result Nim (9, Black) (MCTSNode [] 0 0 (Some ''1'') [''1'', ''2''] White)
       = 58 / 100"
proof -
  have "rollout Nim (random_seq []) 1 (59, Black) 0 = Inr ((9, Black), 51)"
    by (simp add: nim_simps engine_simps rollout.simps)
  moreover have "mcts_cycle Nim (random_seq []) (CHR ''w'' # replicate 60 CHR ''I'') 0
      (new_MCTSNode Nim (60, White) None None)
     = Inr (MCTSNode [MCTSNode [] 1 (1 / 2) (Some ''1'') [''1'', ''2''] White] 1 (1 / 2) None
              [''2''] Black, 51)"
    by (simp add: nim_simps engine_simps select_loop.simps rollout.simps backpropagate.simps)
  moreover have "simulation_result Nim (9, Black)
      (MCTSNode [] 0 0 (Some ''1'') [''1'', ''2''] White) = 58 / 100"
    by (simp add: nim_simps engine_simps material_result_def material_score_def)
  ultimately show ?thesis
    by (simp add: nim_simps)
qed

section \<open>The moves of a node\<close>

lemma legal_ok_sel:
  "legal_ok R created current n =
     (Some ` set (untriedMoves n) \<union> move ` set (children n) = Some ` set (moves R created)
      \<and> (\<forall>c \<in> set (children n).
            case move c of
              None \<Rightarrow> False
            | Some mv \<Rightarrow>
                (case newChess R (fen R current) of
                   None \<Rightarrow> False
                 | Some newGame \<Rightarrow>
                     legal_ok R (applyMove R newGame mv) (applyMove R current mv) c)))"
  by (cases n) simp

lemma no_dup_sel:
  "no_dup n = (distinct (map Some (untriedMoves n) @ map move (children n))
     \<and> (\<forall>c \<in> set (children n). no_dup c))"
  by (cases n) simp

lemma applicable_sel:
  "applicable R current n =
     (set (untriedMoves n) \<subseteq> set (moves R current)
      \<and> (\<forall>c \<in> set (children n).
            case move c of
              None \<Rightarrow> False
            | Some mv \<Rightarrow> mv \<in> set (moves R current) \<and> applicable R (applyMove R current mv) c))"
  by (cases n) simp

lemma map_move_update:
  assumes "i < length cs \<Longrightarrow> move c' = move (cs ! i)"
  shows "map move (cs[i := c']) = map move cs"
proof (cases "i < length cs")
  case True
  then show ?thesis using assms by (simp add: map_update list_update_same_conv)
next
  case False
  then show ?thesis by (simp add: list_update_beyond)
qed

lemma move_modify_at:
  assumes "move n' = move (node_at tree p)"
  shows "move (modify_at (\<lambda>_. n') p tree) = move tree"
  using assms by (cases p) simp_all

lemma move_update_path:
  assumes "\<And>n. move (f n) = move n"
  shows "move (update_path f p tree) = move tree"
  using assms by (cases p) simp_all

lemma legal_ok_update_path:
  assumes f: "\<And>n. move (f n) = move n" "\<And>n. children (f n) = children n"
      "\<And>n. untriedMoves (f n) = untriedMoves n"
    and ok: "legal_ok R gc g tree"
  shows "legal_ok R gc g (update_path f p tree)"
  using ok
proof (induction p arbitrary: tree gc g)
  case Nil
  then show ?case
    using f by (subst legal_ok_sel, subst (asm) legal_ok_sel) simp
next
  case (Cons i p)
  let ?c = "update_path f p (children tree ! i)"
  let ?P = "\<lambda>c. case move c of
              None \<Rightarrow> False
            | Some mv \<Rightarrow>
                (case newChess R (fen R g) of
                   None \<Rightarrow> False
                 | Some newGame \<Rightarrow>
                     legal_ok R (applyMove R newGame mv) (applyMove R g mv) c)"
  have eq: "Some ` set (untriedMoves tree) \<union> move ` set (children tree) = Some ` set (moves R gc)"
    and old: "\<forall>c \<in> set (children tree). ?P c"
    using Cons.prems by (subst (asm) legal_ok_sel, blast)+
  have mv: "move ?c = move (children tree ! i)"
    using f(1) by (rule move_update_path)
  have new: "?P ?c" if i: "i < length (children tree)"
  proof -
    have "?P (children tree ! i)" using old i by simp
    then show ?thesis
      unfolding mv by (auto split: option.splits intro: Cons.IH)
  qed
  have all: "\<forall>c \<in> set ((children tree)[i := ?c]). ?P c"
    using old new by (rule ball_set_updateI)
  have "move ` set ((children tree)[i := ?c]) = move ` set (children tree)"
    using map_move_update [of i "children tree" ?c] mv by (metis set_map)
  then show ?case
    using eq all f by (subst legal_ok_sel) simp
qed

lemma no_dup_update_path:
  assumes f: "\<And>n. move (f n) = move n" "\<And>n. children (f n) = children n"
      "\<And>n. untriedMoves (f n) = untriedMoves n"
    and ok: "no_dup tree"
  shows "no_dup (update_path f p tree)"
  using ok
proof (induction p arbitrary: tree)
  case Nil
  then show ?case
    using f by (subst no_dup_sel, subst (asm) no_dup_sel) simp
next
  case (Cons i p)
  let ?c = "update_path f p (children tree ! i)"
  have d: "distinct (map Some (untriedMoves tree) @ map move (children tree))"
    and old: "\<forall>c \<in> set (children tree). no_dup c"
    using Cons.prems by (subst (asm) no_dup_sel, blast)+
  have mv: "move ?c = move (children tree ! i)"
    using f(1) by (rule move_update_path)
  have new: "no_dup ?c" if i: "i < length (children tree)"
    using old i by (intro Cons.IH) simp
  have all: "\<forall>c \<in> set ((children tree)[i := ?c]). no_dup c"
    using old new by (rule ball_set_updateI)
  have "map move ((children tree)[i := ?c]) = map move (children tree)"
    using mv by (intro map_move_update)
  then show ?case
    using d all f by (subst no_dup_sel) simp
qed

lemma no_dup_replace_at:
  assumes "is_node tree p" and "move n' = move (node_at tree p)" and "no_dup n'"
    and "no_dup tree"
  shows "no_dup (modify_at (\<lambda>_. n') p tree)"
  using assms
proof (induction p arbitrary: tree)
  case Nil
  then show ?case by simp
next
  case (Cons i p)
  let ?c = "modify_at (\<lambda>_. n') p (children tree ! i)"
  have i: "i < length (children tree)" and sub: "is_node (children tree ! i) p"
    using Cons.prems(1) by simp_all
  have d: "distinct (map Some (untriedMoves tree) @ map move (children tree))"
    and old: "\<forall>c \<in> set (children tree). no_dup c"
    using Cons.prems(4) by (subst (asm) no_dup_sel, blast)+
  have mv: "move ?c = move (children tree ! i)"
    using Cons.prems(2) by (intro move_modify_at) simp
  have new: "no_dup ?c"
    using Cons.prems(2,3) old i sub by (intro Cons.IH) simp_all
  have all: "\<forall>c \<in> set ((children tree)[i := ?c]). no_dup c"
    using old new by (rule ball_set_updateI)
  have "map move ((children tree)[i := ?c]) = map move (children tree)"
    using mv by (intro map_move_update)
  then show ?case
    using d all by (subst no_dup_sel) simp
qed

lemma no_dup_node_at:
  assumes "no_dup tree" and "is_node tree p"
  shows "no_dup (node_at tree p)"
  using assms
proof (induction p arbitrary: tree)
  case Nil
  then show ?case by simp
next
  case (Cons i p)
  then have "no_dup (children tree ! i)"
    by (subst (asm) no_dup_sel) simp
  then show ?case using Cons by simp
qed


lemma adapter_contract_fen:
  assumes "adapter_contract R"
  obtains ng where "newChess R (fen R g) = Some ng" and "moves R ng = moves R g"
    and "\<forall>m \<in> set (moves R g). moves R (applyMove R ng m) = moves R (applyMove R g m)"
proof -
  have "case newChess R (fen R g) of
          None \<Rightarrow> False
        | Some g' \<Rightarrow>
            moves R g' = moves R g
            \<and> (\<forall>m \<in> set (moves R g). moves R (applyMove R g' m) = moves R (applyMove R g m))"
    using assms unfolding adapter_contract_def by blast
  then show thesis
    by (cases "newChess R (fen R g)") (auto intro: that)
qed

lemma adapter_contract_moves:
  assumes "adapter_contract R" and "\<not> isGameOver R g"
  shows "moves R g \<noteq> []"
  using assms unfolding adapter_contract_def by blast

lemma select_loop_cases:
  assumes "select_loop R node g = Inr (p, g')"
  obtains (stop) "\<not> (untriedMoves node = [] \<and> children node \<noteq> [])" and "p = []" and "g' = g"
  | (descend) i mv q where "untriedMoves node = []" and "children node \<noteq> []"
      and "selectChild node = Some i" and "i < length (children node)"
      and "move (children node ! i) = Some mv" and "mv \<in> set (moves R g)"
      and "select_loop R (children node ! i) (applyMove R g mv) = Inr (q, g')" and "p = i # q"
proof (cases "untriedMoves node = [] \<and> children node \<noteq> []")
  case False
  then have "select_loop R node g = Inr ([], g)"
    by (subst select_loop.simps) auto
  then show thesis using assms False by (intro stop) simp_all
next
  case True
  then obtain i where i: "i < length (children node)" "selectChild node = Some i"
    using selectChild_last_maximum [of node] by blast
  from assms True i obtain g1 q where m: "make_move R g (move (children node ! i)) = Inr g1"
    and r: "select_loop R (children node ! i) g1 = Inr (q, g')" and p: "p = i # q"
    by (subst (asm) select_loop.simps) (auto split: sum.splits)
  from m obtain mv where "move (children node ! i) = Some mv" "mv \<in> set (moves R g)"
    "g1 = applyMove R g mv"
    by (auto simp: make_move_Inr)
  then show thesis using True i r p by (intro descend [of i mv q]) simp_all
qed

lemma select_loop_legal:
  assumes "select_loop R tree g = Inr (p, g')" and "legal_ok R gc g tree"
  shows "is_node tree p
    \<and> (\<exists>gc'. legal_ok R gc' g' (node_at tree p)
          \<and> (adapter_contract R \<longrightarrow> moves R gc = moves R g \<longrightarrow> moves R gc' = moves R g')
          \<and> (\<forall>n'. legal_ok R gc' g' n' \<longrightarrow> move n' = move (node_at tree p)
                 \<longrightarrow> legal_ok R gc g (modify_at (\<lambda>_. n') p tree)))"
  using assms
proof (induction tree arbitrary: g gc p)
  case (MCTSNode cs v w m u pjm)
  let ?tree = "MCTSNode cs v w m u pjm"
  from MCTSNode.prems(1) show ?case
  proof (cases rule: select_loop_cases)
    case stop
    then show ?thesis using MCTSNode.prems(2) by auto
  next
    case (descend i mv q)
    let ?c = "cs ! i"
    have i: "i < length cs" and mem: "?c \<in> set cs" and mvc: "move ?c = Some mv"
      using descend by simp_all
    let ?P = "\<lambda>c. case move c of
              None \<Rightarrow> False
            | Some mv \<Rightarrow>
                (case newChess R (fen R g) of
                   None \<Rightarrow> False
                 | Some newGame \<Rightarrow>
                     legal_ok R (applyMove R newGame mv) (applyMove R g mv) c)"
    have eq: "Some ` set u \<union> move ` set cs = Some ` set (moves R gc)"
      and old: "\<forall>c \<in> set cs. ?P c"
      using MCTSNode.prems(2) by simp_all
    have "?P ?c" using old mem by blast
    with mvc obtain ng where ng: "newChess R (fen R g) = Some ng"
      and lc: "legal_ok R (applyMove R ng mv) (applyMove R g mv) ?c"
      by (cases "newChess R (fen R g)") auto
    from MCTSNode.IH [OF mem _ lc, of q] descend(7)
    obtain gc' where nq: "is_node ?c q" and l': "legal_ok R gc' g' (node_at ?c q)"
      and mo: "adapter_contract R \<longrightarrow> moves R (applyMove R ng mv) = moves R (applyMove R g mv)
                 \<longrightarrow> moves R gc' = moves R g'"
      and rep: "\<forall>n'. legal_ok R gc' g' n' \<longrightarrow> move n' = move (node_at ?c q)
                 \<longrightarrow> legal_ok R (applyMove R ng mv) (applyMove R g mv) (modify_at (\<lambda>_. n') q ?c)"
      by auto
    have "is_node ?tree p"
      using nq i descend(8) by simp
    moreover have "legal_ok R gc' g' (node_at ?tree p)"
      using l' descend(8) by simp
    moreover have "adapter_contract R \<longrightarrow> moves R gc = moves R g \<longrightarrow> moves R gc' = moves R g'"
    proof (intro impI)
      assume c: "adapter_contract R" and "moves R gc = moves R g"
      have "moves R (applyMove R ng mv) = moves R (applyMove R g mv)"
        using adapter_contract_fen [OF c, of g] ng descend(6) by auto
      then show "moves R gc' = moves R g'" using mo c by blast
    qed
    moreover have "\<forall>n'. legal_ok R gc' g' n' \<longrightarrow> move n' = move (node_at ?tree p)
                 \<longrightarrow> legal_ok R gc g (modify_at (\<lambda>_. n') p ?tree)"
    proof (intro allI impI)
      fix n' assume n': "legal_ok R gc' g' n'" "move n' = move (node_at ?tree p)"
      let ?c' = "modify_at (\<lambda>_. n') q ?c"
      have mq: "move n' = move (node_at ?c q)"
        using n'(2) descend(8) by simp
      have lc': "legal_ok R (applyMove R ng mv) (applyMove R g mv) ?c'"
        using rep n'(1) mq by blast
      have mv': "move ?c' = move ?c"
        using mq by (rule move_modify_at)
      have "?P ?c'"
        using lc' mv' mvc ng by simp
      then have all: "\<forall>c \<in> set (cs[i := ?c']). ?P c"
        using old by (intro ball_set_updateI) simp_all
      have "move ` set (cs[i := ?c']) = move ` set cs"
        using map_move_update [of i cs ?c'] mv' by (metis set_map)
      then show "legal_ok R gc g (modify_at (\<lambda>_. n') p ?tree)"
        using eq all descend(8) by simp
    qed
    ultimately show ?thesis by blast
  qed
qed

lemma legal_ok_applicable:
  assumes "adapter_contract R" and "legal_ok R gc g n" and "moves R gc = moves R g"
  shows "applicable R g n"
  using assms(2,3)
proof (induction n arbitrary: gc g)
  case (MCTSNode cs v w m u pjm)
  have eq: "Some ` set u \<union> move ` set cs = Some ` set (moves R g)"
    using MCTSNode.prems by simp
  then have "Some ` set u \<subseteq> Some ` set (moves R g)" by blast
  then have u: "set u \<subseteq> set (moves R g)" by auto
  have "case move c of None \<Rightarrow> False
        | Some mv \<Rightarrow> mv \<in> set (moves R g) \<and> applicable R (applyMove R g mv) c"
    if c: "c \<in> set cs" for c
  proof -
    have pc: "case move c of
            None \<Rightarrow> False
          | Some mv \<Rightarrow>
              (case newChess R (fen R g) of
                 None \<Rightarrow> False
               | Some newGame \<Rightarrow>
                   legal_ok R (applyMove R newGame mv) (applyMove R g mv) c)"
      using MCTSNode.prems(1) c by simp
    then obtain mv where mv: "move c = Some mv"
      by (cases "move c") auto
    with pc obtain ng where ng: "newChess R (fen R g) = Some ng"
      and lc: "legal_ok R (applyMove R ng mv) (applyMove R g mv) c"
      by (cases "newChess R (fen R g)") auto
    have "move c \<in> Some ` set (moves R g)"
      using eq c by blast
    then have in_moves: "mv \<in> set (moves R g)" using mv by auto
    have "moves R (applyMove R ng mv) = moves R (applyMove R g mv)"
      using adapter_contract_fen [OF assms(1), of g] ng in_moves by auto
    then have "applicable R (applyMove R g mv) c"
      using MCTSNode.IH [OF c lc] by simp
    then show ?thesis using mv in_moves by simp
  qed
  then show ?case using u by simp
qed

lemma select_loop_succeeds:
  assumes "applicable R g tree"
  shows "\<exists>p g'. select_loop R tree g = Inr (p, g') \<and> applicable R g' (node_at tree p)"
  using assms
proof (induction tree arbitrary: g)
  case (MCTSNode cs v w m u pjm)
  let ?tree = "MCTSNode cs v w m u pjm"
  show ?case
  proof (cases "u = [] \<and> cs \<noteq> []")
    case False
    then have "select_loop R ?tree g = Inr ([], g)"
      by (subst select_loop.simps) auto
    then show ?thesis using MCTSNode.prems by simp
  next
    case True
    then obtain i where i: "i < length cs" "selectChild ?tree = Some i"
      using selectChild_last_maximum [of ?tree] by auto
    let ?c = "cs ! i"
    have mem: "?c \<in> set cs" using i by simp
    have "case move ?c of None \<Rightarrow> False
          | Some mv \<Rightarrow> mv \<in> set (moves R g) \<and> applicable R (applyMove R g mv) ?c"
      using MCTSNode.prems mem by simp
    then obtain mv where mv: "move ?c = Some mv" "mv \<in> set (moves R g)"
      and ac: "applicable R (applyMove R g mv) ?c"
      by (cases "move ?c") auto
    from MCTSNode.IH [OF mem ac] obtain q g' where
      r: "select_loop R ?c (applyMove R g mv) = Inr (q, g')" and a: "applicable R g' (node_at ?c q)"
      by blast
    have "select_loop R ?tree g = Inr (i # q, g')"
      using True i mv r by (subst select_loop.simps) (simp add: make_move_def)
    then show ?thesis using a by simp
  qed
qed

lemma random_pick_Some:
  assumes "random_pick r xs = Some x"
  shows "x \<in> set xs"
proof -
  let ?i = "\<lfloor>r * real (length xs)\<rfloor>"
  from assms have i: "0 \<le> ?i" "?i < int (length xs)" and x: "x = xs ! nat ?i"
    by (auto simp: random_pick_def Let_def split: if_splits)
  from i have "nat ?i < length xs" by linarith
  then show ?thesis using x by simp
qed

lemma random_pick_in_range:
  assumes "0 \<le> r" and "r < 1" and "xs \<noteq> []"
  shows "\<exists>x \<in> set xs. random_pick r xs = Some x"
proof -
  let ?n = "length xs"
  have n: "0 < real ?n" using assms(3) by simp
  have "0 \<le> r * real ?n" using assms(1) by simp
  then have lo: "0 \<le> \<lfloor>r * real ?n\<rfloor>" by simp
  have "r * real ?n < real ?n" using assms(2) n by simp
  then have hi: "\<lfloor>r * real ?n\<rfloor> < int ?n" by (simp add: floor_less_iff)
  then have "nat \<lfloor>r * real ?n\<rfloor> < ?n" using lo by linarith
  then show ?thesis using lo hi by (auto simp: random_pick_def Let_def)
qed

lemma rollout_succeeds:
  assumes "adapter_contract R" and "random_ok rnd"
  shows "\<exists>g' k'. rollout R rnd k g depth = Inr (g', k')"
proof (induction n \<equiv> "MAX_SIMULATION_DEPTH - depth" arbitrary: k g depth)
  case 0
  then have "\<not> depth < MAX_SIMULATION_DEPTH" by simp
  then have "rollout R rnd k g depth = Inr (g, k)"
    by (subst rollout.simps) simp
  then show ?case by blast
next
  case (Suc n)
  show ?case
  proof (cases "isGameOver R g")
    case True
    then have "rollout R rnd k g depth = Inr (g, k)"
      by (subst rollout.simps) simp
    then show ?thesis by blast
  next
    case False
    have d: "depth < MAX_SIMULATION_DEPTH" using Suc.hyps(2) by simp
    have "moves R g \<noteq> []"
      using assms(1) False by (rule adapter_contract_moves)
    moreover have "0 \<le> rnd k" "rnd k < 1"
      using assms(2) by (simp_all add: random_ok_def)
    ultimately obtain m where m: "m \<in> set (moves R g)" "random_pick (rnd k) (moves R g) = Some m"
      using random_pick_in_range by blast
    have "n = MAX_SIMULATION_DEPTH - (depth + 1)" using Suc.hyps(2) by simp
    from Suc.hyps(1) [OF this] obtain g' k' where
      r: "rollout R rnd (k + 1) (applyMove R g m) (depth + 1) = Inr (g', k')"
      by blast
    have "rollout R rnd k g depth = rollout R rnd (k + 1) (applyMove R g m) (depth + 1)"
      using False d m by (subst rollout.simps) (simp add: make_move_def)
    then show ?thesis using r by simp
  qed
qed

lemma addChild_legal:
  assumes "addChild R a this (random_pick r (untriedMoves this)) g = Inr this'"
    and "legal_ok R gc g this"
  shows "legal_ok R gc g this'" and "move this' = move this"
proof -
  let ?P = "\<lambda>c. case move c of
              None \<Rightarrow> False
            | Some mv \<Rightarrow>
                (case newChess R (fen R g) of
                   None \<Rightarrow> False
                 | Some newGame \<Rightarrow>
                     legal_ok R (applyMove R newGame mv) (applyMove R g mv) c)"
  from assms(1) obtain ng m child where ng: "newChess R (fen R g) = Some ng"
    and mv: "random_pick r (untriedMoves this) = Some m"
    and c: "child = MCTSNode [] 0 0 (Some m) (moves R (applyMove R ng m))
                   (if turn R (applyMove R ng m) = White then Black else White)"
    and t: "this' = MCTSNode (children this @ [child]) (visits this) (wins this) (move this)
                   (filter (\<lambda>x. x \<noteq> m) (untriedMoves this)) (playerJustMoved this)"
    by (rule addChild_Inr)
  have m: "m \<in> set (untriedMoves this)"
    using mv by (rule random_pick_Some)
  show "move this' = move this" using t by simp
  have eq: "Some ` set (untriedMoves this) \<union> move ` set (children this) = Some ` set (moves R gc)"
    and old: "\<forall>c \<in> set (children this). ?P c"
    using assms(2) by (subst (asm) legal_ok_sel, blast)+
  have "legal_ok R (applyMove R ng m) (applyMove R g m) child"
    using c by simp
  then have new: "?P child"
    using c ng by simp
  have "Some ` set (filter (\<lambda>x. x \<noteq> m) (untriedMoves this)) \<union> move ` set (children this @ [child])
      = Some ` set (untriedMoves this) \<union> move ` set (children this)"
    using m c by auto
  then have eq': "Some ` set (untriedMoves this') \<union> move ` set (children this') = Some ` set (moves R gc)"
    using eq t by simp
  have "\<forall>c \<in> set (children this'). ?P c"
    using old new t by simp
  then show "legal_ok R gc g this'"
    using eq' by (subst legal_ok_sel) blast
qed

lemma addChild_no_dup:
  assumes "addChild R a this (random_pick r (untriedMoves this)) g = Inr this'"
    and "\<forall>g. distinct (moves R g)" and "no_dup this"
  shows "no_dup this'"
proof -
  from assms(1) obtain ng m child where
    mv: "random_pick r (untriedMoves this) = Some m"
    and c: "child = MCTSNode [] 0 0 (Some m) (moves R (applyMove R ng m))
                   (if turn R (applyMove R ng m) = White then Black else White)"
    and t: "this' = MCTSNode (children this @ [child]) (visits this) (wins this) (move this)
                   (filter (\<lambda>x. x \<noteq> m) (untriedMoves this)) (playerJustMoved this)"
    by (rule addChild_Inr)
  have m: "m \<in> set (untriedMoves this)"
    using mv by (rule random_pick_Some)
  have d: "distinct (map Some (untriedMoves this) @ map move (children this))"
    and old: "\<forall>c \<in> set (children this). no_dup c"
    using assms(3) by (subst (asm) no_dup_sel, blast)+
  have du: "distinct (untriedMoves this)" and dc: "distinct (map move (children this))"
    and dj: "Some ` set (untriedMoves this) \<inter> move ` set (children this) = {}"
    using d by (auto simp: distinct_map)
  have fresh: "Some m \<notin> move ` set (children this)"
    using m dj by blast
  have "distinct (map Some (filter (\<lambda>x. x \<noteq> m) (untriedMoves this)))"
    using du by (simp add: distinct_map)
  moreover have "distinct (map move (children this @ [child]))"
    using dc fresh c by simp
  moreover have "Some ` set (filter (\<lambda>x. x \<noteq> m) (untriedMoves this))
      \<inter> move ` set (children this @ [child]) = {}"
    using dj c by auto
  ultimately have d': "distinct (map Some (untriedMoves this') @ map move (children this'))"
    using t by simp
  have "no_dup child"
    using c assms(2) by (simp add: distinct_map)
  then have "\<forall>c \<in> set (children this'). no_dup c"
    using old t by simp
  then show ?thesis
    using d' by (subst no_dup_sel) blast
qed

lemma mcts_cycle_Inr:
  assumes "mcts_cycle R rnd fen_str k tree = Inr (tree', k')"
  obtains g0 p g1 tree1 p1 g2 k1 g3 where "newChess R fen_str = Some g0"
    and "select_loop R tree g0 = Inr (p, g1)"
    and "expand R rnd k tree p g1 = Inr (tree1, p1, g2, k1)"
    and "rollout R rnd k1 g2 0 = Inr (g3, k')"
    and "tree' = update_path (\<lambda>n. update (backprop_val R g3 n) n) p1 tree1"
proof -
  from assms obtain g0 where a: "newChess R fen_str = Some g0"
    by (cases "newChess R fen_str") (simp_all add: mcts_cycle_def)
  from assms a obtain p g1 where b: "select_loop R tree g0 = Inr (p, g1)"
    by (cases "select_loop R tree g0") (auto simp: mcts_cycle_def)
  from assms a b obtain tree1 p1 g2 k1 where c: "expand R rnd k tree p g1 = Inr (tree1, p1, g2, k1)"
    by (cases "expand R rnd k tree p g1") (auto simp: mcts_cycle_def)
  from assms a b c obtain g3 k2 where d: "rollout R rnd k1 g2 0 = Inr (g3, k2)"
    by (cases "rollout R rnd k1 g2 0") (auto simp: mcts_cycle_def)
  from assms a b c d have "tree' = backpropagate R g3 tree1 (Some p1)" and "k' = k2"
    by (simp_all add: mcts_cycle_def)
  then show thesis
    using a b c d by (intro that [of g0 p g1 tree1 p1 g2 k1 g3]) (simp_all add: backpropagate_update_path)
qed

lemma expand_cases:
  assumes "expand R rnd k tree p g = Inr (tree1, p1, g2, k1)"
  obtains (skip) "untriedMoves (node_at tree p) = [] \<or> isGameOver R g" and "tree1 = tree"
      and "p1 = p" and "g2 = g" and "k1 = k"
  | (add) this' where "untriedMoves (node_at tree p) \<noteq> []" and "\<not> isGameOver R g"
      and "addChild R p (node_at tree p) (random_pick (rnd k) (untriedMoves (node_at tree p))) g
             = Inr this'"
      and "tree1 = modify_at (\<lambda>_. this') p tree"
      and "p1 = p @ [length (children (node_at tree p))]" and "k1 = k + 1"
proof (cases "untriedMoves (node_at tree p) \<noteq> [] \<and> \<not> isGameOver R g")
  case False
  then show thesis using assms by (intro skip) (auto simp: expand_def)
next
  case True
  let ?mv = "random_pick (rnd k) (untriedMoves (node_at tree p))"
  from assms True obtain this' where a: "addChild R p (node_at tree p) ?mv g = Inr this'"
    by (cases "addChild R p (node_at tree p) ?mv g") (auto simp: expand_def)
  from assms True a obtain g' where "make_move R g ?mv = Inr g'"
    by (cases "make_move R g ?mv") (auto simp: expand_def)
  then show thesis
    using assms True a by (intro add [of this']) (auto simp: expand_def)
qed

lemma update_keeps:
  "move (update r n) = move n" "children (update r n) = children n"
  "untriedMoves (update r n) = untriedMoves n"
  by (simp_all add: update_def)

lemma mcts_cycle_legal:
  assumes "mcts_cycle R rnd fen_str k tree = Inr (tree', k')"
    and "newChess R fen_str = Some g0" and "legal_ok R g0 g0 tree"
  shows "legal_ok R g0 g0 tree'"
proof -
  from assms(1) obtain g0' p g1 tree1 p1 g2 k1 g3 where n: "newChess R fen_str = Some g0'"
    and s: "select_loop R tree g0' = Inr (p, g1)"
    and e: "expand R rnd k tree p g1 = Inr (tree1, p1, g2, k1)"
    and t: "tree' = update_path (\<lambda>n. update (backprop_val R g3 n) n) p1 tree1"
    by (rule mcts_cycle_Inr)
  have g0: "g0' = g0" using n assms(2) by simp
  from select_loop_legal [OF s [unfolded g0] assms(3)] obtain gc' where
    l: "legal_ok R gc' g1 (node_at tree p)"
    and rep: "\<forall>n'. legal_ok R gc' g1 n' \<longrightarrow> move n' = move (node_at tree p)
                 \<longrightarrow> legal_ok R g0 g0 (modify_at (\<lambda>_. n') p tree)"
    by blast
  from e have "legal_ok R g0 g0 tree1"
  proof (cases rule: expand_cases)
    case skip
    then show ?thesis using assms(3) by simp
  next
    case (add this')
    show ?thesis
      using addChild_legal [OF add(3) l] rep add(4) by blast
  qed
  then show ?thesis
    unfolding t by (intro legal_ok_update_path) (simp_all add: update_keeps)
qed

lemma mcts_cycle_no_dup:
  assumes "mcts_cycle R rnd fen_str k tree = Inr (tree', k')"
    and "newChess R fen_str = Some g0" and "legal_ok R g0 g0 tree"
    and "\<forall>g. distinct (moves R g)" and "no_dup tree"
  shows "no_dup tree'"
proof -
  from assms(1) obtain g0' p g1 tree1 p1 g2 k1 g3 where n: "newChess R fen_str = Some g0'"
    and s: "select_loop R tree g0' = Inr (p, g1)"
    and e: "expand R rnd k tree p g1 = Inr (tree1, p1, g2, k1)"
    and t: "tree' = update_path (\<lambda>n. update (backprop_val R g3 n) n) p1 tree1"
    by (rule mcts_cycle_Inr)
  have g0: "g0' = g0" using n assms(2) by simp
  have p: "is_node tree p"
    using select_loop_legal [OF s [unfolded g0] assms(3)] by blast
  from e have "no_dup tree1"
  proof (cases rule: expand_cases)
    case skip
    then show ?thesis using assms(5) by simp
  next
    case (add this')
    have "no_dup (node_at tree p)"
      using assms(5) p by (rule no_dup_node_at)
    then have "no_dup this'"
      using addChild_no_dup [OF add(3) assms(4)] by blast
    moreover have "move this' = move (node_at tree p)"
      using add(3) by (auto elim: addChild_Inr)
    ultimately show ?thesis
      unfolding add(4) using p assms(5) by (intro no_dup_replace_at)
  qed
  then show ?thesis
    unfolding t by (intro no_dup_update_path) (simp_all add: update_keeps)
qed


lemma addChild_succeeds:
  assumes "adapter_contract R" and "m \<in> set (moves R g)"
  shows "\<exists>this'. addChild R a this (Some m) g = Inr this'"
proof -
  from assms(1) obtain ng where "newChess R (fen R g) = Some ng" "moves R ng = moves R g"
    by (rule adapter_contract_fen)
  then show ?thesis
    using assms(2) by (simp add: addChild_def make_move_def)
qed

lemma expand_succeeds:
  assumes "adapter_contract R" and "random_ok rnd" and "applicable R g (node_at tree p)"
  shows "\<exists>tree1 p1 g2 k1. expand R rnd k tree p g = Inr (tree1, p1, g2, k1)"
proof (cases "untriedMoves (node_at tree p) \<noteq> [] \<and> \<not> isGameOver R g")
  case False
  then show ?thesis by (auto simp: expand_def)
next
  case True
  have "0 \<le> rnd k" "rnd k < 1"
    using assms(2) by (simp_all add: random_ok_def)
  with True obtain m where m: "m \<in> set (untriedMoves (node_at tree p))"
    "random_pick (rnd k) (untriedMoves (node_at tree p)) = Some m"
    using random_pick_in_range by blast
  have "set (untriedMoves (node_at tree p)) \<subseteq> set (moves R g)"
    using assms(3) by (subst (asm) applicable_sel) blast
  then have legal: "m \<in> set (moves R g)" using m by blast
  then obtain this' where "addChild R p (node_at tree p) (Some m) g = Inr this'"
    using addChild_succeeds [OF assms(1)] by blast
  then show ?thesis
    using True m legal by (simp add: expand_def make_move_def)
qed

lemma mcts_cycle_succeeds:
  assumes "adapter_contract R" and "random_ok rnd" and "newChess R fen_str = Some g0"
    and "legal_ok R g0 g0 tree"
  shows "\<exists>tree' k'. mcts_cycle R rnd fen_str k tree = Inr (tree', k')"
proof -
  have "applicable R g0 tree"
    using assms(1,4) by (rule legal_ok_applicable) simp
  from select_loop_succeeds [OF this] obtain p g1 where s: "select_loop R tree g0 = Inr (p, g1)"
    and a: "applicable R g1 (node_at tree p)"
    by blast
  from expand_succeeds [OF assms(1,2) a] obtain tree1 p1 g2 k1 where
    e: "expand R rnd k tree p g1 = Inr (tree1, p1, g2, k1)"
    by blast
  from rollout_succeeds [OF assms(1,2)] obtain g3 k2 where
    r: "rollout R rnd k1 g2 0 = Inr (g3, k2)"
    by blast
  show ?thesis
    using assms(3) s e r by (simp add: mcts_cycle_def)
qed

lemma length_children_update_path:
  assumes "\<And>n. children (f n) = children n"
  shows "length (children (update_path f p tree)) = length (children tree)"
  using assms by (cases p) simp_all

lemma expand_children:
  assumes "expand R rnd k tree p g = Inr (tree1, p1, g2, k1)"
  shows "length (children tree) \<le> length (children tree1)"
    and "p = [] \<Longrightarrow> untriedMoves tree \<noteq> [] \<Longrightarrow> \<not> isGameOver R g \<Longrightarrow> children tree1 \<noteq> []"
proof -
  from assms show "length (children tree) \<le> length (children tree1)"
  proof (cases rule: expand_cases)
    case skip
    then show ?thesis by simp
  next
    case (add this')
    from add(3) have "length (children this') = Suc (length (children (node_at tree p)))"
      by (auto elim: addChild_Inr)
    then show ?thesis
      using add(4) by (cases p) simp_all
  qed
  from assms show "children tree1 \<noteq> []"
    if "p = []" "untriedMoves tree \<noteq> []" "\<not> isGameOver R g"
  proof (cases rule: expand_cases)
    case skip
    then show ?thesis using that by simp
  next
    case (add this')
    from add(3) have "length (children this') = Suc (length (children (node_at tree p)))"
      by (auto elim: addChild_Inr)
    then show ?thesis
      using add(4) that by auto
  qed
qed

lemma mcts_cycle_children:
  assumes "mcts_cycle R rnd fen_str k tree = Inr (tree', k')"
  shows "length (children tree) \<le> length (children tree')"
    and "newChess R fen_str = Some g0 \<Longrightarrow> untriedMoves tree \<noteq> [] \<Longrightarrow> \<not> isGameOver R g0
           \<Longrightarrow> children tree' \<noteq> []"
proof -
  from assms obtain g0' p g1 tree1 p1 g2 k1 g3 where n: "newChess R fen_str = Some g0'"
    and s: "select_loop R tree g0' = Inr (p, g1)"
    and e: "expand R rnd k tree p g1 = Inr (tree1, p1, g2, k1)"
    and t: "tree' = update_path (\<lambda>n. update (backprop_val R g3 n) n) p1 tree1"
    by (rule mcts_cycle_Inr)
  have len: "length (children tree') = length (children tree1)"
    unfolding t by (intro length_children_update_path) (simp add: update_keeps)
  show "length (children tree) \<le> length (children tree')"
    using expand_children(1) [OF e] len by simp
  show "children tree' \<noteq> []"
    if "newChess R fen_str = Some g0" "untriedMoves tree \<noteq> []" "\<not> isGameOver R g0"
  proof -
    have g0: "g0' = g0" using n that(1) by simp
    from s have "p = [] \<and> g1 = g0'"
      using that(2) by (cases rule: select_loop_cases) simp_all
    then have "children tree1 \<noteq> []"
      using expand_children(2) [OF e] that(2,3) g0 by simp
    then show ?thesis using len by auto
  qed
qed

lemma run_cycles_legal_all:
  assumes "run_cycles R rnd fen_str n k tree = Inr (tree', k')"
    and "newChess R fen_str = Some g0" and "legal_ok R g0 g0 tree"
  shows "legal_ok R g0 g0 tree'
    \<and> length (children tree) \<le> length (children tree')
    \<and> ((\<forall>g. distinct (moves R g)) \<longrightarrow> no_dup tree \<longrightarrow> no_dup tree')"
  using assms(1,3)
proof (induction n arbitrary: k tree)
  case 0
  then show ?case by simp
next
  case (Suc n)
  from Suc.prems(1) obtain t1 k1 where c: "mcts_cycle R rnd fen_str k tree = Inr (t1, k1)"
    and r: "run_cycles R rnd fen_str n k1 t1 = Inr (tree', k')"
    by (auto split: sum.splits)
  have l1: "legal_ok R g0 g0 t1"
    using c assms(2) Suc.prems(2) by (rule mcts_cycle_legal)
  have n1: "no_dup t1" if "\<forall>g. distinct (moves R g)" "no_dup tree"
    using c assms(2) Suc.prems(2) that by (rule mcts_cycle_no_dup)
  have "length (children tree) \<le> length (children t1)"
    using c by (rule mcts_cycle_children(1))
  then show ?case
    using Suc.IH [OF r l1] n1 by auto
qed

lemmas run_cycles_legal = run_cycles_legal_all [THEN conjunct1]

lemma run_cycles_children:
  assumes "run_cycles R rnd fen_str n k tree = Inr (tree', k')"
    and "newChess R fen_str = Some g0" and "legal_ok R g0 g0 tree"
  shows "length (children tree) \<le> length (children tree')"
  using run_cycles_legal_all [OF assms] by blast

lemma run_cycles_no_dup:
  assumes "run_cycles R rnd fen_str n k tree = Inr (tree', k')"
    and "newChess R fen_str = Some g0" and "legal_ok R g0 g0 tree"
    and "\<forall>g. distinct (moves R g)" and "no_dup tree"
  shows "no_dup tree'"
  using run_cycles_legal_all [OF assms(1,2,3)] assms(4,5) by blast

lemma run_cycles_succeeds:
  assumes "adapter_contract R" and "random_ok rnd" and "newChess R fen_str = Some g0"
    and "legal_ok R g0 g0 tree"
  shows "\<exists>tree' k'. run_cycles R rnd fen_str n k tree = Inr (tree', k')"
  using assms(4)
proof (induction n arbitrary: k tree)
  case 0
  show ?case by simp
next
  case (Suc n)
  from mcts_cycle_succeeds [OF assms(1,2,3) Suc.prems] obtain t1 k1 where
    c: "mcts_cycle R rnd fen_str k tree = Inr (t1, k1)"
    by blast
  have "legal_ok R g0 g0 t1"
    using c assms(3) Suc.prems by (rule mcts_cycle_legal)
  from Suc.IH [OF this] show ?case
    using c by simp
qed

lemma mcts_loop_outcome:
  assumes "adapter_contract R" and "random_ok rnd" and "newChess R fen_str = Some g0"
    and "legal_ok R g0 g0 tree"
  shows "mcts_loop R rnd fen_str startTime clock k tree = Inl ClockExhausted
    \<or> (\<exists>tree'. mcts_loop R rnd fen_str startTime clock k tree = Inr tree')"
  using assms(4)
proof (induction clock arbitrary: k tree)
  case Nil
  show ?case by simp
next
  case (Cons now clock)
  from mcts_cycle_succeeds [OF assms(1,2,3) Cons.prems] obtain t1 k1 where
    c: "mcts_cycle R rnd fen_str k tree = Inr (t1, k1)"
    by blast
  have "legal_ok R g0 g0 t1"
    using c assms(3) Cons.prems by (rule mcts_cycle_legal)
  from Cons.IH [OF this] show ?case
    using c by simp
qed

lemma root_legal: "legal_ok R g g (new_MCTSNode R g None None)"
  by (simp add: new_MCTSNode_def)

lemma root_no_dup: "distinct (moves R g) \<Longrightarrow> no_dup (new_MCTSNode R g None None)"
  by (simp add: new_MCTSNode_def distinct_map)

subsection \<open>The small game meets the assumptions\<close>

lemma Nim_fen_round_trip: "newChess Nim (fen Nim g) = Some g"
proof (cases g)
  case (Pair n c)
  then show ?thesis by (cases c) (simp_all add: nim_simps)
qed

lemma Nim_contract: "adapter_contract Nim"
proof -
  have "moves Nim g \<noteq> []" if "\<not> isGameOver Nim g" for g
    using that by (simp add: nim_simps)
  then show ?thesis
    unfolding adapter_contract_def by (simp add: Nim_fen_round_trip)
qed

lemma Nim_moves_distinct: "distinct (moves Nim g)"
  by (simp add: nim_simps)

lemma random_seq_Nil_ok: "random_ok (random_seq [])"
  by (simp add: random_ok_def random_seq_def)

subsection \<open>The claims\<close>

text \<open>
  Claim C6. When the rules engine lists no legal move twice, then in the tree of a search,
  after any number of cycles, every node has as its moves (the untried moves and the moves
  that label the children) the legal moves of the game the node was constructed from, no
  more and no fewer (\<open>legal_ok\<close>), and none of them twice (\<open>no_dup\<close>). The legal
  moves are asked for by the constructor only; later \<^verbatim>\<open>untriedMoves\<close> only loses the
  move that \<^verbatim>\<open>addChild\<close> gives to the new child.
\<close>

theorem C6_moves_of_a_node_are_its_legal_moves:
  assumes "\<forall>g. distinct (moves R g)" and "newChess R fen_str = Some rootGame"
    and "search_tree R clock rnd fen_str rootGame = Inr tree"
  shows "legal_ok R rootGame rootGame tree \<and> no_dup tree"
proof -
  let ?root = "new_MCTSNode R rootGame None None"
  from assms(3) obtain startTime clock' where
    "mcts_loop R rnd fen_str startTime clock' 0 ?root = Inr tree"
    by (cases clock) (simp_all add: search_tree_def)
  then obtain n k where r: "run_cycles R rnd fen_str n 0 ?root = Inr (tree, k)"
    using mcts_loop_run_cycles by blast
  have "no_dup ?root"
    using assms(1) by (intro root_no_dup) simp
  then show ?thesis
    using run_cycles_legal [OF r assms(2) root_legal]
      run_cycles_no_dup [OF r assms(2) root_legal assms(1)] by blast
qed

theorem C6_moves_of_a_node_are_its_legal_moves_witness:
  "(\<forall>g. distinct (moves Nim g)) \<and> newChess Nim ''wII'' = Some (2, White)
   \<and> search_tree Nim [0, 1, 2, 3, 1000] (random_seq []) ''wII'' (2, White) = Inr (MCTSNode
         [MCTSNode [] 1 0 (Some ''1'') [''1''] White, MCTSNode [] 2 2 (Some ''2'') [] White]
         3 1 None [] Black)
   \<and> legal_ok Nim (2, White) (2, White) (MCTSNode
         [MCTSNode [] 1 0 (Some ''1'') [''1''] White, MCTSNode [] 2 2 (Some ''2'') [] White]
         3 1 None [] Black)
   \<and> no_dup (MCTSNode
         [MCTSNode [] 1 0 (Some ''1'') [''1''] White, MCTSNode [] 2 2 (Some ''2'') [] White]
         3 1 None [] Black)"
proof -
  have a: "\<forall>g. distinct (moves Nim g)"
    using Nim_moves_distinct by blast
  have b: "newChess Nim ''wII'' = Some (2, White)"
    by (simp add: nim_simps)
  have c: "search_tree Nim [0, 1, 2, 3, 1000] (random_seq []) ''wII'' (2, White) = Inr (MCTSNode
         [MCTSNode [] 1 0 (Some ''1'') [''1''] White, MCTSNode [] 2 2 (Some ''2'') [] White]
         3 1 None [] Black)"
    by (simp add: nim_simps engine_simps select_loop.simps rollout.simps backpropagate.simps)
  show ?thesis
    using a b c C6_moves_of_a_node_are_its_legal_moves [OF a b c] by blast
qed

text \<open>
  Claim C8. A move that the search applies to a game is applied by \<open>make_move\<close>, which
  stops the call with \<open>InvalidMove\<close> when the move is not in the list of legal moves of
  the very game it is applied to (or is no move at all). When the rules engine keeps its
  contract and the random values are in range, no call of the entry point stops that way,
  whatever the position, the clock and the number of cycles: every move applied in the
  selection, in the expansion and in the simulation is a legal move of the game it is
  applied to. The moves of a node were listed on the game the node was constructed from, a
  copy rebuilt from the FEN string; the contract says that the copy has the same legal
  moves.
\<close>

theorem C8_every_applied_move_is_legal:
  assumes "adapter_contract R" and "random_ok rnd"
  shows "getBestMoveMCTS R clock rnd fen_str \<noteq> Inl InvalidMove"
proof (cases "newChess R fen_str")
  case None
  then show ?thesis by (simp add: getBestMoveMCTS_def)
next
  case (Some g0)
  show ?thesis
  proof (cases clock)
    case Nil
    then show ?thesis using Some by (simp add: getBestMoveMCTS_def search_tree_def)
  next
    case (Cons startTime clock')
    from mcts_loop_outcome [OF assms Some root_legal, of startTime clock' 0]
    show ?thesis
      using Some Cons by (auto simp: getBestMoveMCTS_def search_tree_def)
  qed
qed

theorem C8_every_applied_move_is_legal_witness:
  "adapter_contract Nim \<and> random_ok (random_seq [])
   \<and> getBestMoveMCTS Nim [0, 1, 2, 3, 1000] (random_seq []) ''wII'' \<noteq> Inl InvalidMove"
  using Nim_contract random_seq_Nil_ok
    C8_every_applied_move_is_legal [OF Nim_contract random_seq_Nil_ok]
  by blast

lemma robust_child_is_child:
  assumes "children tree \<noteq> []"
  shows "\<exists>c \<in> set (children tree). robust_child tree = move c"
proof -
  from js_sort_head_first_maximum [OF assms] obtain i where "i < length (children tree)"
    "js_sort (\<lambda>a b. int (visits b) - int (visits a)) (children tree) ! 0 = children tree ! i"
    by blast
  then show ?thesis
    using assms by (auto simp: robust_child_def js_sort_eq_Nil)
qed

lemma first_test_at_budget_returns_null:
  assumes "newChess R fen_str = Some rootGame" and "1000 \<le> first - startTime"
  shows "getBestMoveMCTS R (startTime # first # clock) rnd fen_str = Inr None"
  using assms
  by (simp add: getBestMoveMCTS_def search_tree_def TIME_LIMIT_MS_def robust_child_def
      js_sort_def new_MCTSNode_def)

text \<open>
  Claim C10, as the code has it. The loop tests the budget before its first cycle, on a
  second reading of the clock. For an input position that is not terminal, when that first
  test finds the elapsed time below 1000 ms (and a later one finds it at or above, so that
  the loop ends), the rules engine keeps its contract and the random values are in range,
  the search completes: its tree is the result of as many cycles as the root has visits, at
  least one; the root has a child; and the entry point returns a move, not \<^verbatim>\<open>null\<close>,
  that is a legal move of the input position. So \<^verbatim>\<open>null\<close> is returned for a position
  that is not terminal only when the first test finds the budget met already (lemma
  \<open>first_test_at_budget_returns_null\<close>).
\<close>

theorem C10_first_test_below_budget_completes_a_cycle:
  assumes "adapter_contract R" and "random_ok rnd" and "newChess R fen_str = Some rootGame"
    and "\<not> isGameOver R rootGame" and "first - startTime < 1000"
    and "\<exists>t \<in> set clock. 1000 \<le> t - startTime"
  shows "\<exists>tree k. search_tree R (startTime # first # clock) rnd fen_str rootGame = Inr tree
     \<and> run_cycles R rnd fen_str (visits tree) 0 (new_MCTSNode R rootGame None None) = Inr (tree, k)
     \<and> 1 \<le> visits tree \<and> children tree \<noteq> []
     \<and> (\<exists>m \<in> set (moves R rootGame).
           getBestMoveMCTS R (startTime # first # clock) rnd fen_str = Inr (Some m))"
proof -
  let ?root = "new_MCTSNode R rootGame None None"
  from assms(6) obtain before now after where clock: "clock = before @ now # after"
    and now: "1000 \<le> now - startTime" and before: "\<forall>t \<in> set before. \<not> 1000 \<le> t - startTime"
    using split_list_first_prop [of clock "\<lambda>t. 1000 \<le> t - startTime"] by blast
  have b: "\<forall>t \<in> set (first # before). t - startTime < 1000"
    using before assms(5) by auto
  from mcts_cycle_succeeds [OF assms(1,2,3) root_legal] obtain t1 k1 where
    c: "mcts_cycle R rnd fen_str 0 ?root = Inr (t1, k1)"
    by blast
  have l1: "legal_ok R rootGame rootGame t1"
    using c assms(3) root_legal by (rule mcts_cycle_legal)
  have "untriedMoves ?root \<noteq> []"
    using adapter_contract_moves [OF assms(1,4)] by (simp add: new_MCTSNode_def)
  then have ch1: "children t1 \<noteq> []"
    using mcts_cycle_children(2) [OF c assms(3)] assms(4) by blast
  from run_cycles_succeeds [OF assms(1,2,3) l1] obtain tree k where
    r: "run_cycles R rnd fen_str (length before) k1 t1 = Inr (tree, k)"
    by blast
  have rs: "run_cycles R rnd fen_str (Suc (length before)) 0 ?root = Inr (tree, k)"
    using c r by simp
  have v: "visits tree = Suc (length before)"
    using run_cycles_visits [OF rs] by (simp add: new_MCTSNode_def)
  have "mcts_loop R rnd fen_str startTime ((first # before) @ now # after) 0 ?root = Inr tree"
    using rs by (simp only: mcts_loop_exit [OF b now] length_Cons) simp
  then have st: "search_tree R (startTime # first # clock) rnd fen_str rootGame = Inr tree"
    using clock by (simp add: search_tree_def)
  have l: "legal_ok R rootGame rootGame tree"
    using r assms(3) l1 by (rule run_cycles_legal)
  have ch: "children tree \<noteq> []"
    using run_cycles_children [OF r assms(3) l1] ch1 by auto
  have res: "getBestMoveMCTS R (startTime # first # clock) rnd fen_str = Inr (robust_child tree)"
    using st assms(3,4) by (simp add: getBestMoveMCTS_def)
  from robust_child_is_child [OF ch] obtain c' where c': "c' \<in> set (children tree)"
    "robust_child tree = move c'"
    by blast
  have "move c' \<in> Some ` set (moves R rootGame)"
    using l c'(1) by (subst (asm) legal_ok_sel) blast
  then obtain m where "m \<in> set (moves R rootGame)" "robust_child tree = Some m"
    using c'(2) by auto
  then show ?thesis
    using st rs v ch res by auto
qed

theorem C10_first_test_below_budget_completes_a_cycle_witness:
  "adapter_contract Nim \<and> random_ok (random_seq [])
   \<and> newChess Nim ''wII'' = Some (2, White) \<and> \<not> isGameOver Nim (2, White)
   \<and> (1::int) - 0 < 1000 \<and> (\<exists>t \<in> set [2, 3, 1000 :: int]. 1000 \<le> t - 0)
   \<and> (\<exists>tree k. search_tree Nim (0 # 1 # [2, 3, 1000]) (random_seq []) ''wII'' (2, White) = Inr tree
         \<and> run_cycles Nim (random_seq []) ''wII'' (visits tree) 0
              (new_MCTSNode Nim (2, White) None None) = Inr (tree, k)
         \<and> 1 \<le> visits tree \<and> children tree \<noteq> []
         \<and> (\<exists>m \<in> set (moves Nim (2, White)).
               getBestMoveMCTS Nim (0 # 1 # [2, 3, 1000]) (random_seq []) ''wII'' = Inr (Some m)))"
proof -
  have a: "newChess Nim ''wII'' = Some (2, White)" "\<not> isGameOver Nim (2, White)"
    by (simp_all add: nim_simps)
  have b: "(1::int) - 0 < 1000" "\<exists>t \<in> set [2, 3, 1000 :: int]. 1000 \<le> t - 0"
    by simp_all
  show ?thesis
    using Nim_contract random_seq_Nil_ok a b
      C10_first_test_below_budget_completes_a_cycle [OF Nim_contract random_seq_Nil_ok a b]
    by blast
qed

text \<open>
  Claim C10, as stated (every position that is not terminal gets a cycle and a move), fails:
  the Nim position with two stones is not terminal, and when the clock shows 0 ms at the
  start and 1000 ms at the first test of the loop, the loop runs no cycle and the entry
  point returns \<^verbatim>\<open>null\<close>.
\<close>

theorem C10_no_cycle_returns_null_counterexample:
  "newChess Nim ''wII'' = Some (2, White) \<and> \<not> isGameOver Nim (2, White)
   \<and> getBestMoveMCTS Nim [0, 1000, 5000] (random_seq []) ''wII'' = Inr None"
  by (simp add: nim_simps engine_simps)

end
